theory Spec2Isabelle
  imports Complex_Main "HOL-Library.Sublist"
begin

section \<open>The source updater of src/source-updater.js\<close>

text \<open>
  A \<open>SourceUpdater\<close> serialises the mutations of one SourceBuffer of a MediaSource:
  every mutation is queued as a pair of an action and a completion callback, one
  action at a time is run on the buffer, and the buffer's \<open>updateend\<close> event runs
  the completion callback of the action in flight and then the next action.

  The class is embedded as a record of its fields and one function per method. The
  objects it only holds references to (the MediaSource, the SourceBuffer, the event
  emitter) are records of the properties the class reads or writes. What these
  objects do on their own (the buffer changing its \<open>updating\<close> flag, the media
  source changing its \<open>readyState\<close>, events being fired) is an event of the
  environment, see \<open>event\<close> below; no behaviour of theirs is assumed.
  A name of the source that ends in an underscore ends in a prime here
  (\<open>callbacks'\<close> is \<open>callbacks_\<close>).
\<close>

subsection \<open>Values\<close>

text \<open>
  JavaScript numbers are only stored and passed on by this class, never computed with.
  An \<open>ArrayBuffer\<close> is the list of its bytes.
\<close>

type_synonym number = real
type_synonym bytes = "nat list"

text \<open>The only exception the class itself can raise: a property read on \<open>undefined\<close>.\<close>

datatype error = TypeError

text \<open>
  A completion callback (\<open>done\<close>) is a function of the caller: \<open>noop\<close> of
  \<open>util/noop\<close>, or a function of the caller's, identified by a number. An argument
  that is left out (\<open>undefined\<close>) is \<open>None\<close>. The body of a caller's function is
  not part of the source; calling it is recorded in the trace, with the arguments it
  is called with.
\<close>

datatype callback = Noop | Done nat

text \<open>
  The four closures that the methods queue (lines 97, 112, 140 and 163), with the
  values they capture.
\<close>

datatype action =
    AbortAction
  | AppendAction bytes
  | RemoveAction number number
  | OffsetAction number

text \<open>
  The event object that the buffer passes to an \<open>updateend\<close> listener: the mutation
  has completed, or it has failed for a reason.
\<close>

datatype notification = Completed | Failed string

text \<open>
  What the class does to the outside, in the order it does it: a pair is pushed on the
  queue (line 175), a queued action is called (line 190), an \<open>updateend\<close> handler is
  entered (line 70), a completion callback is called with a list of arguments (line 78),
  \<open>sourcebufferadded\<close> is triggered on the emitter (line 48), \<open>abort\<close> is called
  on the buffer by \<open>dispose\<close> (line 200).
\<close>

datatype obs =
    Queued action "callback option"
  | Dispatched action "callback option"
  | Handler notification
  | Called callback "notification list"
  | Triggered
  | DisposeAbort

subsection \<open>The objects the class refers to\<close>

text \<open>
  A SourceBuffer: its \<open>updating\<close> flag, its \<open>timestampOffset\<close> property, and the
  \<open>updateend\<close> listeners added to it, each the identity of a handler closure.
\<close>

record sourceBuffer =
  sb_mimeType :: string
  sb_updating :: bool
  sb_timestampOffset :: number
  sb_listeners :: "nat list"

text \<open>A MediaSource: its \<open>readyState\<close> and the length of its \<open>sourceBuffers\<close>.\<close>

record mediaSource =
  readyState :: string
  sourceBuffers :: nat

text \<open>
  \<open>mediaSource.addSourceBuffer(mimeType)\<close>: a new buffer, not updating, with no
  listener, added to \<open>sourceBuffers\<close>.
\<close>

definition new_sourceBuffer :: "string \<Rightarrow> sourceBuffer" where
  "new_sourceBuffer mimeType =
     \<lparr>sb_mimeType = mimeType, sb_updating = False, sb_timestampOffset = 0, sb_listeners = []\<rparr>"

subsection \<open>The fields of the class\<close>

text \<open>
  The fields of lines 25 to 31, and \<open>sourceBuffer'\<close>, \<open>started'\<close> and
  \<open>onUpdateendCallback'\<close>, which are \<open>undefined\<close> until \<open>createSourceBuffer'\<close>
  and \<open>start'\<close> set them (\<open>None\<close>, and \<open>False\<close> for the flag that is only tested).
  The last four fields are not fields of the class: the \<open>sourceopen\<close> listener that the
  constructor adds to the media source, with the arguments bound into it; the number of
  \<open>sourcebufferadded\<close> listeners that the class has put on the emitter; the number
  of handler closures created so far, which gives the next one its identity; and the
  trace.
\<close>

record sourceUpdater =
  callbacks' :: "(action \<times> callback option) list"
  pendingCallback' :: "callback option"
  timestampOffset' :: number
  mediaSource :: mediaSource
  processedAppend' :: bool
  type' :: string
  mimeType' :: string
  sourceBuffer' :: "sourceBuffer option"
  started' :: bool
  onUpdateendCallback' :: "nat option"
  sourceopen_listener :: "(string \<times> bool) option"
  sourcebufferadded_listeners :: nat
  closures :: nat
  trace :: "obs list"

subsection \<open>The methods\<close>

text \<open>\<open>updating()\<close>, line 152.\<close>

definition updating :: "sourceUpdater \<Rightarrow> bool" where
  "updating s =
     (case sourceBuffer' s of
        None \<Rightarrow> True
      | Some sb \<Rightarrow> sb_updating sb \<or> pendingCallback' s \<noteq> None)"

text \<open>
  Calling a queued action on the buffer. Only \<open>OffsetAction\<close> writes a property of
  the buffer (line 164); the others call a method of the buffer, whose effect on the
  buffer is the environment's.
\<close>

fun call_action :: "action \<Rightarrow> sourceBuffer \<Rightarrow> sourceBuffer" where
  "call_action (OffsetAction offset) sb = sb\<lparr>sb_timestampOffset := offset\<rparr>"
| "call_action _ sb = sb"

text \<open>
  \<open>runCallback'()\<close>, line 182. The guard \<open>!this.updating()\<close> has established that
  \<open>sourceBuffer'\<close> is set and \<open>callbacks'.length\<close> that the queue has a head, so the
  last case is never taken (\<open>runCallback_guard\<close> below).
\<close>

definition runCallback' :: "sourceUpdater \<Rightarrow> sourceUpdater" where
  "runCallback' s =
     (if \<not> updating s \<and> callbacks' s \<noteq> [] \<and> started' s then
        (case (callbacks' s, sourceBuffer' s) of
           ((callback, done) # rest, Some sb) \<Rightarrow>
             s\<lparr>callbacks' := rest,
               pendingCallback' := done,
               sourceBuffer' := Some (call_action callback sb),
               trace := trace s @ [Dispatched callback done]\<rparr>
         | _ \<Rightarrow> s)
      else s)"

text \<open>\<open>queueCallback'(callback, done)\<close>, line 174.\<close>

definition queueCallback' :: "action \<Rightarrow> callback option \<Rightarrow> sourceUpdater \<Rightarrow> sourceUpdater" where
  "queueCallback' callback done s =
     runCallback' (s\<lparr>callbacks' := callbacks' s @ [(callback, done)],
                     trace := trace s @ [Queued callback done]\<rparr>)"

text \<open>\<open>abort(done)\<close>, line 95.\<close>

definition abort :: "callback option \<Rightarrow> sourceUpdater \<Rightarrow> sourceUpdater" where
  "abort done s = (if processedAppend' s then queueCallback' AbortAction done s else s)"

text \<open>\<open>appendBuffer(bytes, done)\<close>, line 110.\<close>

definition appendBuffer :: "bytes \<Rightarrow> callback option \<Rightarrow> sourceUpdater \<Rightarrow> sourceUpdater" where
  "appendBuffer bytes done s =
     queueCallback' (AppendAction bytes) done (s\<lparr>processedAppend' := True\<rparr>)"

text \<open>\<open>remove(start, end, done = noop)\<close>, line 138.\<close>

definition remove :: "number \<Rightarrow> number \<Rightarrow> callback option \<Rightarrow> sourceUpdater \<Rightarrow> sourceUpdater" where
  "remove start end done s =
     (let done' = (case done of None \<Rightarrow> Noop | Some f \<Rightarrow> f) in
      if processedAppend' s then queueCallback' (RemoveAction start end) (Some done') s else s)"

text \<open>
  \<open>timestampOffset(offset)\<close>, line 161: the value returned and the updater after
  the call.
\<close>

definition timestampOffset :: "number option \<Rightarrow> sourceUpdater \<Rightarrow> number \<times> sourceUpdater" where
  "timestampOffset offset s =
     (case offset of
        None \<Rightarrow> (timestampOffset' s, s)
      | Some v \<Rightarrow>
          (let s' = (queueCallback' (OffsetAction v) None s)\<lparr>timestampOffset' := v\<rparr>
           in (timestampOffset' s', s')))"

text \<open>
  The handler that \<open>start'\<close> creates, lines 70 to 82. It takes no parameter: the event
  object it is called with is dropped. The log line is left out.
\<close>

definition onUpdateend :: "notification \<Rightarrow> sourceUpdater \<Rightarrow> sourceUpdater" where
  "onUpdateend ev s =
     (let pendingCallback = pendingCallback' s;
          s1 = s\<lparr>pendingCallback' := None, trace := trace s @ [Handler ev]\<rparr>;
          s2 = (case pendingCallback of
                  None \<Rightarrow> s1
                | Some f \<Rightarrow> s1\<lparr>trace := trace s1 @ [Called f []]\<rparr>)
      in runCallback' s2)"

text \<open>
  \<open>start'()\<close>, line 65. A new handler closure is created at each call; adding it to
  an undefined \<open>sourceBuffer'\<close> raises.
\<close>

definition start' :: "sourceUpdater \<Rightarrow> error + sourceUpdater" where
  "start' s =
     (let h = closures s;
          s1 = s\<lparr>started' := True, onUpdateendCallback' := Some h, closures := Suc h\<rparr>
      in case sourceBuffer' s1 of
           None \<Rightarrow> Inl TypeError
         | Some sb \<Rightarrow>
             Inr (runCallback'
                    (s1\<lparr>sourceBuffer' := Some (sb\<lparr>sb_listeners := sb_listeners sb @ [h]\<rparr>)\<rparr>)))"

text \<open>
  The emitter calls each \<open>sourcebufferadded\<close> listener of the class; each of them
  calls \<open>start'\<close> (line 56).
\<close>

primrec call_listeners :: "nat \<Rightarrow> sourceUpdater \<Rightarrow> error + sourceUpdater" where
  "call_listeners 0 s = Inr s"
| "call_listeners (Suc n) s =
     (case start' s of Inl e \<Rightarrow> Inl e | Inr s' \<Rightarrow> call_listeners n s')"

text \<open>\<open>createSourceBuffer'(mimeType, sourceBufferEmitter)\<close>, line 42.\<close>

definition createSourceBuffer' :: "string \<Rightarrow> bool \<Rightarrow> sourceUpdater \<Rightarrow> error + sourceUpdater" where
  "createSourceBuffer' mimeType sourceBufferEmitter s =
     (let ms = mediaSource s;
          s1 = s\<lparr>sourceBuffer' := Some (new_sourceBuffer mimeType),
                 mediaSource := ms\<lparr>sourceBuffers := Suc (sourceBuffers ms)\<rparr>\<rparr>
      in if sourceBufferEmitter then
           (case call_listeners (sourcebufferadded_listeners s1)
                   (s1\<lparr>trace := trace s1 @ [Triggered]\<rparr>) of
              Inl e \<Rightarrow> Inl e
            | Inr s2 \<Rightarrow>
                if sourceBuffers (mediaSource s2) < 2 then
                  Inr (s2\<lparr>sourcebufferadded_listeners := Suc (sourcebufferadded_listeners s2)\<rparr>)
                else start' s2)
         else start' s1)"

text \<open>The constructor, line 24. The emitter argument is given or left out.\<close>

definition SourceUpdater :: "mediaSource \<Rightarrow> string \<Rightarrow> string \<Rightarrow> bool \<Rightarrow> error + sourceUpdater" where
  "SourceUpdater ms mimeType type sourceBufferEmitter =
     (let s = \<lparr>callbacks' = [], pendingCallback' = None, timestampOffset' = 0,
               mediaSource = ms, processedAppend' = False, type' = type,
               mimeType' = mimeType, sourceBuffer' = None, started' = False,
               onUpdateendCallback' = None, sourceopen_listener = None,
               sourcebufferadded_listeners = 0, closures = 0, trace = []\<rparr>
      in if readyState ms = ''closed'' then
           Inr (s\<lparr>sourceopen_listener := Some (mimeType, sourceBufferEmitter)\<rparr>)
         else createSourceBuffer' mimeType sourceBufferEmitter s)"

text \<open>
  \<open>dispose()\<close>, line 197. Line 198 reads a property of \<open>sourceBuffer'\<close> before
  line 199 tests it. Removing a listener that is \<open>undefined\<close> or not in the list
  does nothing.
\<close>

definition dispose :: "sourceUpdater \<Rightarrow> error + sourceUpdater" where
  "dispose s =
     (case sourceBuffer' s of
        None \<Rightarrow> Inl TypeError
      | Some sb \<Rightarrow>
          (let sb' = (case onUpdateendCallback' s of
                        None \<Rightarrow> sb
                      | Some h \<Rightarrow> sb\<lparr>sb_listeners := removeAll h (sb_listeners sb)\<rparr>);
               s1 = s\<lparr>sourceBuffer' := Some sb'\<rparr>
           in if readyState (mediaSource s1) = ''open''
              then Inr (s1\<lparr>trace := trace s1 @ [DisposeAbort]\<rparr>)
              else Inr s1))"

subsection \<open>Callers and the environment\<close>

text \<open>
  What can happen to an updater: a caller calls a method, or the environment does one of
  five things. The media source opens and fires \<open>sourceopen\<close>; another updater on the
  same media source and emitter creates its buffer and triggers
  \<open>sourcebufferadded\<close>; the buffer fires \<open>updateend\<close>; the buffer changes its
  \<open>updating\<close> flag; the media source changes its \<open>readyState\<close>.
\<close>

datatype event =
    CallAbort "callback option"
  | CallAppendBuffer bytes "callback option"
  | CallRemove number number "callback option"
  | CallTimestampOffset "number option"
  | CallDispose
  | Sourceopen
  | Sourcebufferadded
  | Updateend notification
  | SetUpdating bool
  | SetReadyState string

text \<open>
  The buffer calls each of its \<open>updateend\<close> listeners with the event; each of them
  is a handler of this updater.
\<close>

definition fire_updateend :: "notification \<Rightarrow> sourceUpdater \<Rightarrow> sourceUpdater" where
  "fire_updateend ev s =
     (case sourceBuffer' s of
        None \<Rightarrow> s
      | Some sb \<Rightarrow> (onUpdateend ev ^^ length (sb_listeners sb)) s)"

definition fire_sourceopen :: "sourceUpdater \<Rightarrow> error + sourceUpdater" where
  "fire_sourceopen s =
     (let s1 = s\<lparr>mediaSource := (mediaSource s)\<lparr>readyState := ''open''\<rparr>\<rparr>
      in case sourceopen_listener s1 of
           None \<Rightarrow> Inr s1
         | Some (mimeType, sourceBufferEmitter) \<Rightarrow>
             createSourceBuffer' mimeType sourceBufferEmitter s1)"

definition fire_sourcebufferadded :: "sourceUpdater \<Rightarrow> error + sourceUpdater" where
  "fire_sourcebufferadded s =
     (let ms = mediaSource s
      in call_listeners (sourcebufferadded_listeners s)
           (s\<lparr>mediaSource := ms\<lparr>sourceBuffers := Suc (sourceBuffers ms)\<rparr>\<rparr>))"

definition set_updating :: "bool \<Rightarrow> sourceUpdater \<Rightarrow> sourceUpdater" where
  "set_updating b s =
     (case sourceBuffer' s of
        None \<Rightarrow> s
      | Some sb \<Rightarrow> s\<lparr>sourceBuffer' := Some (sb\<lparr>sb_updating := b\<rparr>)\<rparr>)"

fun step :: "event \<Rightarrow> sourceUpdater \<Rightarrow> error + sourceUpdater" where
  "step (CallAbort done) s = Inr (abort done s)"
| "step (CallAppendBuffer bytes done) s = Inr (appendBuffer bytes done s)"
| "step (CallRemove start end done) s = Inr (remove start end done s)"
| "step (CallTimestampOffset offset) s = Inr (snd (timestampOffset offset s))"
| "step CallDispose s = dispose s"
| "step Sourceopen s = fire_sourceopen s"
| "step Sourcebufferadded s = fire_sourcebufferadded s"
| "step (Updateend ev) s = Inr (fire_updateend ev s)"
| "step (SetUpdating b) s = Inr (set_updating b s)"
| "step (SetReadyState r) s = Inr (s\<lparr>mediaSource := (mediaSource s)\<lparr>readyState := r\<rparr>\<rparr>)"

text \<open>A sequence of events; an exception that nothing catches ends it.\<close>

fun run :: "event list \<Rightarrow> sourceUpdater \<Rightarrow> error + sourceUpdater" where
  "run [] s = Inr s"
| "run (e # es) s = (case step e s of Inl err \<Rightarrow> Inl err | Inr s' \<Rightarrow> run es s')"

text \<open>The states an updater can be in: constructed, then any events.\<close>

inductive reachable :: "sourceUpdater \<Rightarrow> bool" where
  reachable_new: "SourceUpdater ms mimeType type sourceBufferEmitter = Inr s \<Longrightarrow> reachable s"
| reachable_step: "reachable s \<Longrightarrow> step e s = Inr s' \<Longrightarrow> reachable s'"

subsection \<open>Reading the trace\<close>

text \<open>
  The completion callbacks that were called, the completion callbacks that were queued,
  the pairs that were queued and the pairs that were dispatched, each in the order of the
  trace; and the completion callbacks an updater still holds: the pending one, then those
  of the queue.
\<close>

fun opt_list :: "'a option \<Rightarrow> 'a list" where
  "opt_list None = []"
| "opt_list (Some x) = [x]"

fun somes :: "'a option list \<Rightarrow> 'a list" where
  "somes [] = []"
| "somes (x # xs) = opt_list x @ somes xs"

fun called_of :: "obs \<Rightarrow> callback option" where
  "called_of (Called f args) = Some f"
| "called_of _ = None"

fun done_of :: "obs \<Rightarrow> callback option" where
  "done_of (Queued callback done) = done"
| "done_of _ = None"

fun queued_of :: "obs \<Rightarrow> (action \<times> callback option) option" where
  "queued_of (Queued callback done) = Some (callback, done)"
| "queued_of _ = None"

fun dispatched_of :: "obs \<Rightarrow> (action \<times> callback option) option" where
  "dispatched_of (Dispatched callback done) = Some (callback, done)"
| "dispatched_of _ = None"

definition calls :: "obs list \<Rightarrow> callback list" where
  "calls tr = somes (map called_of tr)"

definition dones :: "obs list \<Rightarrow> callback list" where
  "dones tr = somes (map done_of tr)"

definition queued :: "obs list \<Rightarrow> (action \<times> callback option) list" where
  "queued tr = somes (map queued_of tr)"

definition dispatched :: "obs list \<Rightarrow> (action \<times> callback option) list" where
  "dispatched tr = somes (map dispatched_of tr)"

definition awaited :: "sourceUpdater \<Rightarrow> callback list" where
  "awaited s = opt_list (pendingCallback' s) @ somes (map snd (callbacks' s))"

subsection \<open>Invariants\<close>

text \<open>
  Every step of an updater is made of the eight changes of state below. A property that
  each of them keeps is kept by every method and every event, but for the push on the queue,
  the two fields that \<open>appendBuffer\<close> and \<open>timestampOffset\<close> set and the count of
  \<open>sourcebufferadded\<close> listeners, which are treated apart
  (\<open>preserved_step\<close>).
\<close>

fun is_call :: "event \<Rightarrow> bool" where
  "is_call (CallAbort done) = True"
| "is_call (CallAppendBuffer bytes done) = True"
| "is_call (CallRemove start end done) = True"
| "is_call (CallTimestampOffset (Some v)) = True"
| "is_call _ = False"

definition preserved :: "(sourceUpdater \<Rightarrow> bool) \<Rightarrow> bool" where
  "preserved P \<longleftrightarrow>
     (\<forall>t. P t \<longrightarrow> P (runCallback' t)) \<and>
     (\<forall>t ev. P t \<longrightarrow> pendingCallback' t = None \<longrightarrow>
        P (t\<lparr>pendingCallback' := None, trace := trace t @ [Handler ev]\<rparr>)) \<and>
     (\<forall>t ev f. P t \<longrightarrow> pendingCallback' t = Some f \<longrightarrow>
        P (t\<lparr>pendingCallback' := None, trace := trace t @ [Handler ev, Called f []]\<rparr>)) \<and>
     (\<forall>t sb. P t \<longrightarrow> sourceBuffer' t = Some sb \<longrightarrow>
        P (t\<lparr>started' := True, onUpdateendCallback' := Some (closures t),
               closures := Suc (closures t),
               sourceBuffer' := Some (sb\<lparr>sb_listeners := sb_listeners sb @ [closures t]\<rparr>)\<rparr>)) \<and>
     (\<forall>t sb. P t \<longrightarrow> P (t\<lparr>sourceBuffer' := Some sb\<rparr>)) \<and>
     (\<forall>t m. P t \<longrightarrow> P (t\<lparr>mediaSource := m\<rparr>)) \<and>
     (\<forall>t. P t \<longrightarrow> P (t\<lparr>trace := trace t @ [Triggered]\<rparr>)) \<and>
     (\<forall>t. P t \<longrightarrow> P (t\<lparr>trace := trace t @ [DisposeAbort]\<rparr>))"

definition new_session :: "mediaSource \<Rightarrow> bool \<Rightarrow> event list \<Rightarrow> error + sourceUpdater" where
  "new_session ms sourceBufferEmitter es =
     (case SourceUpdater ms ''video/mp4'' ''main'' sourceBufferEmitter of
        Inl e \<Rightarrow> Inl e
      | Inr s \<Rightarrow> run es s)"

fun sets_offset :: "event \<Rightarrow> bool" where
  "sets_offset (CallTimestampOffset (Some v)) = True"
| "sets_offset _ = False"

fun is_append :: "event \<Rightarrow> bool" where
  "is_append (CallAppendBuffer bytes done) = True"
| "is_append _ = False"

definition busy :: "sourceUpdater \<Rightarrow> bool" where
  "busy s = (case sourceBuffer' s of None \<Rightarrow> False | Some sb \<Rightarrow> sb_updating sb)"

text \<open>
  Reading a trace for dispatches that overlap. The state is \<open>None\<close> once an action
  has been dispatched while an earlier one was still in flight, and otherwise tells
  whether an action is in flight. A handler that is entered ends the flight. In
  \<open>overlap_any\<close>, the reading of the claim, every dispatched action is in flight; in
  \<open>overlap_callback\<close> an action is in flight when it has a completion callback.
\<close>

fun overlap_any :: "bool option \<Rightarrow> obs \<Rightarrow> bool option" where
  "overlap_any None x = None"
| "overlap_any (Some w) (Dispatched callback done) = (if w then None else Some True)"
| "overlap_any (Some w) (Handler ev) = Some False"
| "overlap_any (Some w) x = Some w"

fun overlap_callback :: "bool option \<Rightarrow> obs \<Rightarrow> bool option" where
  "overlap_callback None x = None"
| "overlap_callback (Some w) (Dispatched callback done) =
     (if w then None else Some (done \<noteq> None))"
| "overlap_callback (Some w) (Handler ev) = Some False"
| "overlap_callback (Some w) x = Some w"

text \<open>
  The completion callbacks that a sequence of events hands to the queue, in the order of
  the calls: what \<open>abort\<close>, \<open>appendBuffer\<close> and \<open>remove\<close> are called with,
  \<open>abort\<close> and \<open>remove\<close> counting only after an \<open>appendBuffer\<close>. The flag
  tells whether \<open>appendBuffer\<close> has been called before.
\<close>

fun promised :: "bool \<Rightarrow> event \<Rightarrow> callback list" where
  "promised appended (CallAbort done) = (if appended then opt_list done else [])"
| "promised appended (CallAppendBuffer bytes done) = opt_list done"
| "promised appended (CallRemove start end done) =
     (if appended then [case done of None \<Rightarrow> Noop | Some f \<Rightarrow> f] else [])"
| "promised appended _ = []"

fun promises :: "bool \<Rightarrow> event list \<Rightarrow> callback list" where
  "promises appended [] = []"
| "promises appended (e # es) = promised appended e @ promises (appended \<or> is_append e) es"

text \<open>
  Completion notifications that arrive as a buffer sends them: the buffer has stopped
  updating, then it fires \<open>updateend\<close>.
\<close>

fun completions :: "notification list \<Rightarrow> event list" where
  "completions [] = []"
| "completions (ev # evs) = SetUpdating False # Updateend ev # completions evs"

text \<open>The handler runs that an updater still needs to have nothing queued or pending.\<close>

definition outstanding :: "sourceUpdater \<Rightarrow> nat" where
  "outstanding s =
     (if callbacks' s = [] \<and> pendingCallback' s = None then 0 else Suc (length (callbacks' s)))"

text \<open>
  The state that \<open>createSourceBuffer'\<close> leaves when it returns at line 58: the buffer
  is there, \<open>start'\<close> has not run, and a \<open>sourcebufferadded\<close> listener is on the
  emitter.
\<close>

definition awaiting_pairing :: "sourceUpdater \<Rightarrow> bool" where
  "awaiting_pairing s \<longleftrightarrow>
     \<not> started' s \<and> sourceBuffer' s \<noteq> None \<and> 0 < sourcebufferadded_listeners s"

text \<open>
  Since the updater had dispatched the pairs \<open>c\<close>, it has dispatched nothing, or its
  buffer is not updating.
\<close>

definition idle_since :: "(action \<times> callback option) list \<Rightarrow> sourceUpdater \<Rightarrow> bool" where
  "idle_since c s \<longleftrightarrow> dispatched (trace s) = c \<or> \<not> busy s"

section \<open>Properties\<close>

subsection \<open>What every step preserves\<close>

lemma runCallback_guard:
  assumes "\<not> updating s" and "callbacks' s \<noteq> []"
  shows "\<exists>callback done rest sb. callbacks' s = (callback, done) # rest \<and> sourceBuffer' s = Some sb"
  using assms by (cases "callbacks' s"; cases "sourceBuffer' s") (auto simp: updating_def)

lemma runCallback_cases:
  obtains (idle) "runCallback' s = s"
  | (dispatch) callback "done" rest sb where
      "sourceBuffer' s = Some sb" and "\<not> sb_updating sb" and "pendingCallback' s = None"
      and "callbacks' s = (callback, done) # rest" and "started' s"
      and "runCallback' s =
             s\<lparr>callbacks' := rest, pendingCallback' := done,
               sourceBuffer' := Some (call_action callback sb),
               trace := trace s @ [Dispatched callback done]\<rparr>"
proof (cases "\<not> updating s \<and> callbacks' s \<noteq> [] \<and> started' s")
  case False
  then have "runCallback' s = s" by (auto simp: runCallback'_def)
  then show ?thesis by (rule idle)
next
  case True
  then obtain callback "done" rest sb
    where q: "callbacks' s = (callback, done) # rest" and b: "sourceBuffer' s = Some sb"
    using runCallback_guard by blast
  from True b have "\<not> sb_updating sb" and "pendingCallback' s = None"
    by (auto simp: updating_def)
  moreover from True q b have "runCallback' s =
             s\<lparr>callbacks' := rest, pendingCallback' := done,
               sourceBuffer' := Some (call_action callback sb),
               trace := trace s @ [Dispatched callback done]\<rparr>"
    by (simp add: runCallback'_def)
  ultimately show ?thesis using True q b by (intro dispatch) auto
qed

lemma preservedI:
  assumes "\<And>t. P t \<Longrightarrow> P (runCallback' t)"
    and "\<And>t ev. P t \<Longrightarrow> pendingCallback' t = None \<Longrightarrow>
        P (t\<lparr>pendingCallback' := None, trace := trace t @ [Handler ev]\<rparr>)"
    and "\<And>t ev f. P t \<Longrightarrow> pendingCallback' t = Some f \<Longrightarrow>
        P (t\<lparr>pendingCallback' := None, trace := trace t @ [Handler ev, Called f []]\<rparr>)"
    and "\<And>t sb. P t \<Longrightarrow> sourceBuffer' t = Some sb \<Longrightarrow>
        P (t\<lparr>started' := True, onUpdateendCallback' := Some (closures t),
               closures := Suc (closures t),
               sourceBuffer' := Some (sb\<lparr>sb_listeners := sb_listeners sb @ [closures t]\<rparr>)\<rparr>)"
    and "\<And>t sb. P t \<Longrightarrow> P (t\<lparr>sourceBuffer' := Some sb\<rparr>)"
    and "\<And>t m. P t \<Longrightarrow> P (t\<lparr>mediaSource := m\<rparr>)"
    and "\<And>t. P t \<Longrightarrow> P (t\<lparr>trace := trace t @ [Triggered]\<rparr>)"
    and "\<And>t. P t \<Longrightarrow> P (t\<lparr>trace := trace t @ [DisposeAbort]\<rparr>)"
  shows "preserved P"
  unfolding preserved_def by (intro conjI allI impI assms)

lemma preserved_runCallback: "preserved P \<Longrightarrow> P s \<Longrightarrow> P (runCallback' s)"
  by (simp add: preserved_def)

lemma preserved_enter:
  "preserved P \<Longrightarrow> P t \<Longrightarrow> pendingCallback' t = None \<Longrightarrow>
     P (t\<lparr>pendingCallback' := None, trace := trace t @ [Handler ev]\<rparr>)"
  by (simp add: preserved_def)

lemma preserved_call:
  "preserved P \<Longrightarrow> P t \<Longrightarrow> pendingCallback' t = Some f \<Longrightarrow>
     P (t\<lparr>pendingCallback' := None, trace := trace t @ [Handler ev, Called f []]\<rparr>)"
  by (simp add: preserved_def)

lemma preserved_started:
  "preserved P \<Longrightarrow> P t \<Longrightarrow> sourceBuffer' t = Some sb \<Longrightarrow>
     P (t\<lparr>started' := True, onUpdateendCallback' := Some (closures t),
           closures := Suc (closures t),
           sourceBuffer' := Some (sb\<lparr>sb_listeners := sb_listeners sb @ [closures t]\<rparr>)\<rparr>)"
  by (simp add: preserved_def)

lemma preserved_buffer: "preserved P \<Longrightarrow> P t \<Longrightarrow> P (t\<lparr>sourceBuffer' := Some sb\<rparr>)"
  by (simp add: preserved_def)

lemma preserved_mediaSource: "preserved P \<Longrightarrow> P t \<Longrightarrow> P (t\<lparr>mediaSource := m\<rparr>)"
  by (simp add: preserved_def)

lemma preserved_triggered:
  "preserved P \<Longrightarrow> P t \<Longrightarrow> P (t\<lparr>trace := trace t @ [Triggered]\<rparr>)"
  by (simp add: preserved_def)

lemma preserved_disposeAbort:
  "preserved P \<Longrightarrow> P t \<Longrightarrow> P (t\<lparr>trace := trace t @ [DisposeAbort]\<rparr>)"
  by (simp add: preserved_def)

lemma preserved_queueCallback:
  assumes "preserved P"
    and "P (s\<lparr>callbacks' := callbacks' s @ [(callback, done)],
              trace := trace s @ [Queued callback done]\<rparr>)"
  shows "P (queueCallback' callback done s)"
  using assms unfolding queueCallback'_def by (rule preserved_runCallback)

lemma preserved_onUpdateend:
  assumes "preserved P" and "P s"
  shows "P (onUpdateend ev s)"
proof (cases "pendingCallback' s")
  case None
  with assms have "P (s\<lparr>pendingCallback' := None, trace := trace s @ [Handler ev]\<rparr>)"
    by (rule preserved_enter)
  with assms(1) None show ?thesis
    by (simp add: onUpdateend_def preserved_runCallback)
next
  case (Some f)
  with assms
  have "P (s\<lparr>pendingCallback' := None, trace := trace s @ [Handler ev, Called f []]\<rparr>)"
    by (rule preserved_call)
  with assms(1) Some show ?thesis
    by (simp add: onUpdateend_def preserved_runCallback)
qed

lemma preserved_fire_updateend:
  assumes "preserved P" and "P s"
  shows "P (fire_updateend ev s)"
proof -
  have "P ((onUpdateend ev ^^ n) s)" for n
    by (induction n) (simp_all add: assms preserved_onUpdateend)
  then show ?thesis
    using \<open>P s\<close> by (simp add: fire_updateend_def split: option.split)
qed

lemma preserved_start:
  assumes "preserved P" and "P s" and "start' s = Inr s'"
  shows "P s'"
proof (cases "sourceBuffer' s")
  case None
  with assms(3) show ?thesis by (simp add: start'_def)
next
  case (Some sb)
  with assms(1,2)
  have "P (s\<lparr>started' := True, onUpdateendCallback' := Some (closures s),
             closures := Suc (closures s),
             sourceBuffer' := Some (sb\<lparr>sb_listeners := sb_listeners sb @ [closures s]\<rparr>)\<rparr>)"
    by (rule preserved_started)
  with assms(1)
  have "P (runCallback' (s\<lparr>started' := True, onUpdateendCallback' := Some (closures s),
             closures := Suc (closures s),
             sourceBuffer' := Some (sb\<lparr>sb_listeners := sb_listeners sb @ [closures s]\<rparr>)\<rparr>))"
    by (rule preserved_runCallback)
  with assms(3) Some show ?thesis by (simp add: start'_def Let_def)
qed

lemma preserved_call_listeners:
  assumes "preserved P" and "P s" and "call_listeners n s = Inr s'"
  shows "P s'"
  using assms(2,3)
proof (induction n arbitrary: s)
  case 0
  then show ?case by simp
next
  case (Suc n)
  from Suc.prems(2) obtain s1 where 1: "start' s = Inr s1" and 2: "call_listeners n s1 = Inr s'"
    by (auto split: sum.splits)
  from assms(1) Suc.prems(1) 1 have "P s1" by (rule preserved_start)
  then show ?case using 2 by (rule Suc.IH)
qed

lemma createSourceBuffer_cases:
  assumes "createSourceBuffer' mimeType sourceBufferEmitter s = Inr s'"
  defines "s1 \<equiv> s\<lparr>sourceBuffer' := Some (new_sourceBuffer mimeType),
                  mediaSource := (mediaSource s)\<lparr>sourceBuffers := Suc (sourceBuffers (mediaSource s))\<rparr>\<rparr>"
  obtains (plain) "\<not> sourceBufferEmitter" and "start' s1 = Inr s'"
  | (wait) s2 where sourceBufferEmitter
      and "call_listeners (sourcebufferadded_listeners s) (s1\<lparr>trace := trace s @ [Triggered]\<rparr>) = Inr s2"
      and "sourceBuffers (mediaSource s2) < 2"
      and "s' = s2\<lparr>sourcebufferadded_listeners := Suc (sourcebufferadded_listeners s2)\<rparr>"
  | (paired) s2 where sourceBufferEmitter
      and "call_listeners (sourcebufferadded_listeners s) (s1\<lparr>trace := trace s @ [Triggered]\<rparr>) = Inr s2"
      and "\<not> sourceBuffers (mediaSource s2) < 2"
      and "start' s2 = Inr s'"
proof (cases sourceBufferEmitter)
  case False
  with assms(1) have "start' s1 = Inr s'"
    by (simp add: createSourceBuffer'_def s1_def Let_def)
  with False show ?thesis by (rule plain)
next
  case True
  let ?c = "call_listeners (sourcebufferadded_listeners s) (s1\<lparr>trace := trace s @ [Triggered]\<rparr>)"
  from True assms(1) have r: "(case ?c of Inl e \<Rightarrow> Inl e
      | Inr s2 \<Rightarrow> if sourceBuffers (mediaSource s2) < 2
          then Inr (s2\<lparr>sourcebufferadded_listeners := Suc (sourcebufferadded_listeners s2)\<rparr>)
          else start' s2) = Inr s'"
    by (simp add: createSourceBuffer'_def s1_def Let_def)
  then obtain s2 where c: "?c = Inr s2" by (cases ?c) simp_all
  show ?thesis
  proof (cases "sourceBuffers (mediaSource s2) < 2")
    case True
    with r c have "s' = s2\<lparr>sourcebufferadded_listeners := Suc (sourcebufferadded_listeners s2)\<rparr>"
      by simp
    with \<open>sourceBufferEmitter\<close> c True show ?thesis by (rule wait)
  next
    case False
    with r c have "start' s2 = Inr s'" by simp
    with \<open>sourceBufferEmitter\<close> c False show ?thesis by (rule paired)
  qed
qed

lemma preserved_createSourceBuffer:
  assumes "preserved P" and "P s"
    and "createSourceBuffer' mimeType sourceBufferEmitter s = Inr s'"
    and listen: "\<And>t n. P t \<Longrightarrow> P (t\<lparr>sourcebufferadded_listeners := n\<rparr>)"
  shows "P s'"
proof -
  let ?s1 = "s\<lparr>sourceBuffer' := Some (new_sourceBuffer mimeType),
               mediaSource := (mediaSource s)\<lparr>sourceBuffers := Suc (sourceBuffers (mediaSource s))\<rparr>\<rparr>"
  from assms(1,2) have "P (s\<lparr>sourceBuffer' := Some (new_sourceBuffer mimeType)\<rparr>)"
    by (rule preserved_buffer)
  with assms(1) have 1: "P ?s1"
    by (rule preserved_mediaSource)
  with assms(1) have 2: "P (?s1\<lparr>trace := trace ?s1 @ [Triggered]\<rparr>)"
    by (rule preserved_triggered)
  from assms(3) show ?thesis
  proof (cases rule: createSourceBuffer_cases)
    case plain
    from assms(1) 1 plain(2) show ?thesis by (rule preserved_start)
  next
    case (wait s2)
    from wait(2) have "call_listeners (sourcebufferadded_listeners ?s1)
        (?s1\<lparr>trace := trace ?s1 @ [Triggered]\<rparr>) = Inr s2" by simp
    with assms(1) 2 have "P s2" by (rule preserved_call_listeners)
    with wait(4) show ?thesis by (simp add: listen)
  next
    case (paired s2)
    from paired(2) have "call_listeners (sourcebufferadded_listeners ?s1)
        (?s1\<lparr>trace := trace ?s1 @ [Triggered]\<rparr>) = Inr s2" by simp
    with assms(1) 2 have "P s2" by (rule preserved_call_listeners)
    with assms(1) show ?thesis using paired(4) by (rule preserved_start)
  qed
qed

lemma preserved_new:
  assumes "preserved P"
    and "\<And>l. P \<lparr>callbacks' = [], pendingCallback' = None, timestampOffset' = 0,
            mediaSource = ms, processedAppend' = False, type' = type,
            mimeType' = mimeType, sourceBuffer' = None, started' = False,
            onUpdateendCallback' = None, sourceopen_listener = l,
            sourcebufferadded_listeners = 0, closures = 0, trace = []\<rparr>"
    and "SourceUpdater ms mimeType type sourceBufferEmitter = Inr s"
    and listen: "\<And>t n. P t \<Longrightarrow> P (t\<lparr>sourcebufferadded_listeners := n\<rparr>)"
  shows "P s"
proof (cases "readyState ms = ''closed''")
  case True
  with assms(3) assms(2) [of "Some (mimeType, sourceBufferEmitter)"] show ?thesis
    by (simp add: SourceUpdater_def)
next
  case False
  with assms(3) have "createSourceBuffer' mimeType sourceBufferEmitter
      \<lparr>callbacks' = [], pendingCallback' = None, timestampOffset' = 0,
            mediaSource = ms, processedAppend' = False, type' = type,
            mimeType' = mimeType, sourceBuffer' = None, started' = False,
            onUpdateendCallback' = None, sourceopen_listener = None,
            sourcebufferadded_listeners = 0, closures = 0, trace = []\<rparr> = Inr s"
    by (simp add: SourceUpdater_def)
  with assms(1) assms(2) [of None] show ?thesis
    by (rule preserved_createSourceBuffer) (rule listen)
qed

lemma preserved_step:
  assumes "preserved P" and "P s" and "step e s = Inr s'"
    and push: "\<And>t a d. is_call e \<Longrightarrow> P t \<Longrightarrow>
                P (t\<lparr>callbacks' := callbacks' t @ [(a, d)], trace := trace t @ [Queued a d]\<rparr>)"
    and app: "\<And>t bytes done. e = CallAppendBuffer bytes done \<Longrightarrow> P t \<Longrightarrow>
                P (t\<lparr>processedAppend' := True\<rparr>)"
    and off: "\<And>t v. e = CallTimestampOffset (Some v) \<Longrightarrow> P t \<Longrightarrow>
                P (t\<lparr>timestampOffset' := v\<rparr>)"
    and listen: "\<And>t n. e = Sourceopen \<Longrightarrow> P t \<Longrightarrow>
                P (t\<lparr>sourcebufferadded_listeners := n\<rparr>)"
  shows "P s'"
proof (cases e)
  case (CallAbort d)
  then have c: "is_call e" by simp
  have "P (queueCallback' AbortAction d s)"
    using assms(1) push [OF c assms(2)] by (rule preserved_queueCallback)
  with CallAbort assms(2,3) show ?thesis
    by (auto simp: abort_def split: if_splits)
next
  case (CallAppendBuffer b d)
  then have c: "is_call e" by simp
  from CallAppendBuffer have 1: "P (s\<lparr>processedAppend' := True\<rparr>)"
    using assms(2) by (rule app)
  have "P (queueCallback' (AppendAction b) d (s\<lparr>processedAppend' := True\<rparr>))"
    using assms(1) push [OF c 1] by (rule preserved_queueCallback)
  with CallAppendBuffer assms(3) show ?thesis by (simp add: appendBuffer_def)
next
  case (CallRemove a b d)
  then have c: "is_call e" by simp
  have "P (queueCallback' (RemoveAction a b) (Some (case d of None \<Rightarrow> Noop | Some f \<Rightarrow> f)) s)"
    using assms(1) push [OF c assms(2)] by (rule preserved_queueCallback)
  with CallRemove assms(2,3) show ?thesis
    by (auto simp: remove_def Let_def split: if_splits)
next
  case (CallTimestampOffset offset)
  show ?thesis
  proof (cases offset)
    case None
    with CallTimestampOffset assms(2,3) show ?thesis by (simp add: timestampOffset_def)
  next
    case (Some v)
    with CallTimestampOffset have c: "is_call e" by simp
    have "P (queueCallback' (OffsetAction v) None s)"
      using assms(1) push [OF c assms(2)] by (rule preserved_queueCallback)
    with Some CallTimestampOffset
    have "P ((queueCallback' (OffsetAction v) None s)\<lparr>timestampOffset' := v\<rparr>)"
      by (simp add: off)
    with Some CallTimestampOffset assms(3)
    show ?thesis by (simp add: timestampOffset_def Let_def)
  qed
next
  case CallDispose
  with assms(3) obtain sb where sb: "sourceBuffer' s = Some sb"
    by (auto simp: dispose_def split: option.splits)
  let ?sb = "case onUpdateendCallback' s of None \<Rightarrow> sb
             | Some h \<Rightarrow> sb\<lparr>sb_listeners := removeAll h (sb_listeners sb)\<rparr>"
  let ?s1 = "s\<lparr>sourceBuffer' := Some ?sb\<rparr>"
  from assms(1,2) have 1: "P ?s1"
    by (rule preserved_buffer)
  with assms(1) have 2: "P (?s1\<lparr>trace := trace ?s1 @ [DisposeAbort]\<rparr>)"
    by (rule preserved_disposeAbort)
  from CallDispose assms(3) sb
  have "s' = ?s1 \<or> s' = ?s1\<lparr>trace := trace ?s1 @ [DisposeAbort]\<rparr>"
    by (simp add: dispose_def Let_def split: if_splits)
  with 1 2 show ?thesis by blast
next
  case Sourceopen
  let ?s1 = "s\<lparr>mediaSource := (mediaSource s)\<lparr>readyState := ''open''\<rparr>\<rparr>"
  from assms(1,2) have 1: "P ?s1"
    by (rule preserved_mediaSource)
  show ?thesis
  proof (cases "sourceopen_listener s")
    case None
    with Sourceopen assms(3) have "s' = ?s1" by (simp add: fire_sourceopen_def)
    with 1 show ?thesis by simp
  next
    case (Some l)
    with Sourceopen assms(3) have "createSourceBuffer' (fst l) (snd l) ?s1 = Inr s'"
      by (simp add: fire_sourceopen_def split: prod.splits)
    with assms(1) 1 show ?thesis
      by (rule preserved_createSourceBuffer) (rule listen [OF Sourceopen])
  qed
next
  case Sourcebufferadded
  let ?s1 = "s\<lparr>mediaSource := (mediaSource s)\<lparr>sourceBuffers := Suc (sourceBuffers (mediaSource s))\<rparr>\<rparr>"
  from assms(1,2) have 1: "P ?s1"
    by (rule preserved_mediaSource)
  from Sourcebufferadded assms(3)
  have "call_listeners (sourcebufferadded_listeners s) ?s1 = Inr s'"
    by (simp add: fire_sourcebufferadded_def Let_def)
  with assms(1) 1 show ?thesis by (rule preserved_call_listeners)
next
  case (Updateend ev)
  with assms(3) have "s' = fire_updateend ev s" by simp
  with assms(1,2) show ?thesis
    by (simp add: preserved_fire_updateend)
next
  case (SetUpdating b)
  show ?thesis
  proof (cases "sourceBuffer' s")
    case None
    with SetUpdating assms(2,3) show ?thesis by (simp add: set_updating_def)
  next
    case (Some sb)
    from assms(1,2) have "P (s\<lparr>sourceBuffer' := Some (sb\<lparr>sb_updating := b\<rparr>)\<rparr>)"
      by (rule preserved_buffer)
    with Some SetUpdating assms(3) show ?thesis by (simp add: set_updating_def)
  qed
next
  case (SetReadyState r)
  from assms(1,2) have "P (s\<lparr>mediaSource := (mediaSource s)\<lparr>readyState := r\<rparr>\<rparr>)"
    by (rule preserved_mediaSource)
  with SetReadyState assms(3) show ?thesis by simp
qed

lemma reachable_run:
  assumes "reachable s" and "run es s = Inr s'"
  shows "reachable s'"
  using assms
proof (induction es arbitrary: s)
  case Nil
  then show ?case by simp
next
  case (Cons e es)
  from Cons.prems(2) obtain s1 where 1: "step e s = Inr s1" and 2: "run es s1 = Inr s'"
    by (auto split: sum.splits)
  from Cons.prems(1) 1 have "reachable s1" by (rule reachable_step)
  then show ?case using 2 by (rule Cons.IH)
qed

lemma preserved_reachable:
  assumes "reachable s" and "preserved P"
    and new: "\<And>ms mimeType type l.
      P \<lparr>callbacks' = [], pendingCallback' = None, timestampOffset' = 0,
         mediaSource = ms, processedAppend' = False, type' = type,
         mimeType' = mimeType, sourceBuffer' = None, started' = False,
         onUpdateendCallback' = None, sourceopen_listener = l,
         sourcebufferadded_listeners = 0, closures = 0, trace = []\<rparr>"
    and push: "\<And>t a d. P t \<Longrightarrow>
         P (t\<lparr>callbacks' := callbacks' t @ [(a, d)], trace := trace t @ [Queued a d]\<rparr>)"
    and app: "\<And>t. P t \<Longrightarrow> P (t\<lparr>processedAppend' := True\<rparr>)"
    and off: "\<And>t v. P t \<Longrightarrow> P (t\<lparr>timestampOffset' := v\<rparr>)"
    and listen: "\<And>t n. P t \<Longrightarrow> P (t\<lparr>sourcebufferadded_listeners := n\<rparr>)"
  shows "P s"
  using assms(1)
proof (induction rule: reachable.induct)
  case (reachable_new ms mimeType type sourceBufferEmitter s)
  from assms(2) new this show ?case by (rule preserved_new) (rule listen)
next
  case (reachable_step s e s')
  from assms(2) reachable_step(3,2) show ?case
  proof (rule preserved_step)
    show "P (t\<lparr>callbacks' := callbacks' t @ [(a, d)], trace := trace t @ [Queued a d]\<rparr>)"
      if "P t" for t a d
      using that by (rule push)
    show "P (t\<lparr>processedAppend' := True\<rparr>)" if "P t" for t
      using that by (rule app)
    show "P (t\<lparr>timestampOffset' := v\<rparr>)" if "P t" for t v
      using that by (rule off)
    show "P (t\<lparr>sourcebufferadded_listeners := n\<rparr>)" if "P t" for t n
      using that by (rule listen)
  qed
qed

lemma somes_append [simp]: "somes (xs @ ys) = somes xs @ somes ys"
  by (induction xs) simp_all

lemma calls_simps [simp]:
  "calls [] = []"
  "calls (tr @ tr') = calls tr @ calls tr'"
  "calls (Called f args # tr) = f # calls tr"
  "calls (Queued a d # tr) = calls tr"
  "calls (Dispatched a d # tr) = calls tr"
  "calls (Handler ev # tr) = calls tr"
  "calls (Triggered # tr) = calls tr"
  "calls (DisposeAbort # tr) = calls tr"
  by (simp_all add: calls_def)

lemma dones_simps [simp]:
  "dones [] = []"
  "dones (tr @ tr') = dones tr @ dones tr'"
  "dones (Called f args # tr) = dones tr"
  "dones (Queued a d # tr) = opt_list d @ dones tr"
  "dones (Dispatched a d # tr) = dones tr"
  "dones (Handler ev # tr) = dones tr"
  "dones (Triggered # tr) = dones tr"
  "dones (DisposeAbort # tr) = dones tr"
  by (simp_all add: dones_def)

lemma queued_simps [simp]:
  "queued [] = []"
  "queued (tr @ tr') = queued tr @ queued tr'"
  "queued (Called f args # tr) = queued tr"
  "queued (Queued a d # tr) = (a, d) # queued tr"
  "queued (Dispatched a d # tr) = queued tr"
  "queued (Handler ev # tr) = queued tr"
  "queued (Triggered # tr) = queued tr"
  "queued (DisposeAbort # tr) = queued tr"
  by (simp_all add: queued_def)

lemma dispatched_simps [simp]:
  "dispatched [] = []"
  "dispatched (tr @ tr') = dispatched tr @ dispatched tr'"
  "dispatched (Called f args # tr) = dispatched tr"
  "dispatched (Queued a d # tr) = dispatched tr"
  "dispatched (Dispatched a d # tr) = (a, d) # dispatched tr"
  "dispatched (Handler ev # tr) = dispatched tr"
  "dispatched (Triggered # tr) = dispatched tr"
  "dispatched (DisposeAbort # tr) = dispatched tr"
  by (simp_all add: dispatched_def)

text \<open>Callbacks are neither lost nor duplicated.\<close>

lemma callbacks_accounted:
  assumes "reachable s"
  shows "calls (trace s) @ awaited s = dones (trace s)"
  using assms
proof (rule preserved_reachable)
  show "preserved (\<lambda>s. calls (trace s) @ awaited s = dones (trace s))"
  proof (rule preservedI)
    fix t :: sourceUpdater
    assume "calls (trace t) @ awaited t = dones (trace t)"
    then show "calls (trace (runCallback' t)) @ awaited (runCallback' t) = dones (trace (runCallback' t))"
      by (cases t rule: runCallback_cases) (simp_all add: awaited_def)
  qed (simp_all add: awaited_def)
qed (simp_all add: awaited_def)

text \<open>The queue is first in, first out.\<close>

lemma dispatched_fifo:
  assumes "reachable s"
  shows "dispatched (trace s) @ callbacks' s = queued (trace s)"
  using assms
proof (rule preserved_reachable)
  show "preserved (\<lambda>s. dispatched (trace s) @ callbacks' s = queued (trace s))"
  proof (rule preservedI)
    fix t :: sourceUpdater
    assume "dispatched (trace t) @ callbacks' t = queued (trace t)"
    then show "dispatched (trace (runCallback' t)) @ callbacks' (runCallback' t) = queued (trace (runCallback' t))"
      by (cases t rule: runCallback_cases) simp_all
  qed simp_all
qed simp_all

lemma started_has_buffer:
  assumes "reachable s" and "started' s"
  shows "sourceBuffer' s \<noteq> None"
proof -
  from assms(1) have "started' s \<longrightarrow> sourceBuffer' s \<noteq> None"
  proof (rule preserved_reachable)
    show "preserved (\<lambda>s. started' s \<longrightarrow> sourceBuffer' s \<noteq> None)"
    proof (rule preservedI)
      fix t :: sourceUpdater
      assume "started' t \<longrightarrow> sourceBuffer' t \<noteq> None"
      then show "started' (runCallback' t) \<longrightarrow> sourceBuffer' (runCallback' t) \<noteq> None"
        by (cases t rule: runCallback_cases) simp_all
    qed simp_all
  qed simp_all
  with assms(2) show ?thesis by simp
qed

lemma not_started_no_dispatch:
  assumes "reachable s" and "\<not> started' s"
  shows "dispatched (trace s) = []"
proof -
  from assms(1) have "started' s \<or> dispatched (trace s) = []"
  proof (rule preserved_reachable)
    show "preserved (\<lambda>s. started' s \<or> dispatched (trace s) = [])"
    proof (rule preservedI)
      fix t :: sourceUpdater
      assume "started' t \<or> dispatched (trace t) = []"
      then show "started' (runCallback' t) \<or> dispatched (trace (runCallback' t)) = []"
        by (cases t rule: runCallback_cases) simp_all
    qed simp_all
  qed simp_all
  with assms(2) show ?thesis by simp
qed

lemmas eval_defs = SourceUpdater_def createSourceBuffer'_def start'_def runCallback'_def
  updating_def queueCallback'_def abort_def appendBuffer_def remove_def timestampOffset_def
  onUpdateend_def dispose_def fire_updateend_def fire_sourceopen_def fire_sourcebufferadded_def
  set_updating_def new_sourceBuffer_def new_session_def Let_def

lemma preserved_timestampOffset: "preserved (\<lambda>u. timestampOffset' u = c)"
proof (rule preservedI)
  fix t :: sourceUpdater
  assume "timestampOffset' t = c"
  then show "timestampOffset' (runCallback' t) = c"
    by (cases t rule: runCallback_cases) simp_all
qed simp_all

lemma preserved_processedAppend: "preserved (\<lambda>u. processedAppend' u = b)"
proof (rule preservedI)
  fix t :: sourceUpdater
  assume "processedAppend' t = b"
  then show "processedAppend' (runCallback' t) = b"
    by (cases t rule: runCallback_cases) simp_all
qed simp_all

lemma SourceUpdater_returns: "\<exists>s. SourceUpdater ms mimeType type sourceBufferEmitter = Inr s"
  by (simp add: SourceUpdater_def createSourceBuffer'_def start'_def new_sourceBuffer_def Let_def)

lemma step_timestampOffset:
  assumes "step e s = Inr s'" and "\<not> sets_offset e"
  shows "timestampOffset' s' = timestampOffset' s"
proof -
  have "timestampOffset' s = timestampOffset' s" ..
  with preserved_timestampOffset show ?thesis using assms(1)
  proof (rule preserved_step)
    fix t :: sourceUpdater and v
    assume "e = CallTimestampOffset (Some v)"
    with assms(2) show "timestampOffset' (t\<lparr>timestampOffset' := v\<rparr>) = timestampOffset' s"
      by simp
  qed simp_all
qed

lemma run_timestampOffset:
  assumes "run es s = Inr s'" and "\<forall>e\<in>set es. \<not> sets_offset e"
  shows "timestampOffset' s' = timestampOffset' s"
  using assms
proof (induction es arbitrary: s)
  case Nil
  then show ?case by simp
next
  case (Cons e es)
  from Cons.prems(1) obtain s1 where 1: "step e s = Inr s1" and 2: "run es s1 = Inr s'"
    by (auto split: sum.splits)
  from 1 Cons.prems(2) have "timestampOffset' s1 = timestampOffset' s"
    by (simp add: step_timestampOffset)
  moreover from 2 Cons.prems(2) have "timestampOffset' s' = timestampOffset' s1"
    by (intro Cons.IH) simp_all
  ultimately show ?case by simp
qed

lemma new_timestampOffset:
  assumes "SourceUpdater ms mimeType type sourceBufferEmitter = Inr s"
  shows "timestampOffset' s = 0"
  using preserved_timestampOffset [of 0] _ assms by (rule preserved_new) simp_all

text \<open>
  C6. For every value \<open>v\<close> and every state of the updater, \<open>timestampOffset(v)\<close>
  stores \<open>v\<close> in the cached offset and returns it, and a read that follows returns
  \<open>v\<close> and changes nothing; a read returns the cached offset whatever the queue and
  the buffer hold.
\<close>

theorem timestampOffset_read_after_write:
  "fst (timestampOffset (Some v) s) = v \<and>
   timestampOffset' (snd (timestampOffset (Some v) s)) = v \<and>
   timestampOffset None (snd (timestampOffset (Some v) s)) = (v, snd (timestampOffset (Some v) s)) \<and>
   timestampOffset None s = (timestampOffset' s, s)"
  by (simp add: timestampOffset_def Let_def)

text \<open>
  At an updater whose buffer is updating, the offset action stays in the queue and the
  buffer keeps its old offset, and the read returns the new value.
\<close>

theorem timestampOffset_read_after_write_witness:
  "new_session \<lparr>readyState = ''open'', sourceBuffers = 0\<rparr> False [SetUpdating True] = Inr
     \<lparr>callbacks' = [], pendingCallback' = None, timestampOffset' = 0,
      mediaSource = \<lparr>readyState = ''open'', sourceBuffers = 1\<rparr>,
      processedAppend' = False, type' = ''main'', mimeType' = ''video/mp4'',
      sourceBuffer' = Some \<lparr>sb_mimeType = ''video/mp4'', sb_updating = True,
                            sb_timestampOffset = 0, sb_listeners = [0]\<rparr>,
      started' = True, onUpdateendCallback' = Some 0, sourceopen_listener = None,
      sourcebufferadded_listeners = 0, closures = 1, trace = []\<rparr> \<and>
   callbacks' (snd (timestampOffset (Some 5)
     \<lparr>callbacks' = [], pendingCallback' = None, timestampOffset' = 0,
      mediaSource = \<lparr>readyState = ''open'', sourceBuffers = 1\<rparr>,
      processedAppend' = False, type' = ''main'', mimeType' = ''video/mp4'',
      sourceBuffer' = Some \<lparr>sb_mimeType = ''video/mp4'', sb_updating = True,
                            sb_timestampOffset = 0, sb_listeners = [0]\<rparr>,
      started' = True, onUpdateendCallback' = Some 0, sourceopen_listener = None,
      sourcebufferadded_listeners = 0, closures = 1, trace = []\<rparr>)) = [(OffsetAction 5, None)] \<and>
   fst (timestampOffset None (snd (timestampOffset (Some 5)
     \<lparr>callbacks' = [], pendingCallback' = None, timestampOffset' = 0,
      mediaSource = \<lparr>readyState = ''open'', sourceBuffers = 1\<rparr>,
      processedAppend' = False, type' = ''main'', mimeType' = ''video/mp4'',
      sourceBuffer' = Some \<lparr>sb_mimeType = ''video/mp4'', sb_updating = True,
                            sb_timestampOffset = 0, sb_listeners = [0]\<rparr>,
      started' = True, onUpdateendCallback' = Some 0, sourceopen_listener = None,
      sourcebufferadded_listeners = 0, closures = 1, trace = []\<rparr>))) = 5"
  using timestampOffset_read_after_write [of 5
     "\<lparr>callbacks' = [], pendingCallback' = None, timestampOffset' = 0,
      mediaSource = \<lparr>readyState = ''open'', sourceBuffers = 1\<rparr>,
      processedAppend' = False, type' = ''main'', mimeType' = ''video/mp4'',
      sourceBuffer' = Some \<lparr>sb_mimeType = ''video/mp4'', sb_updating = True,
                            sb_timestampOffset = 0, sb_listeners = [0]\<rparr>,
      started' = True, onUpdateendCallback' = Some 0, sourceopen_listener = None,
      sourcebufferadded_listeners = 0, closures = 1, trace = []\<rparr>"]
  by (simp add: eval_defs)

text \<open>
  C10. An updater is constructed with the cached offset 0, and an event that is not a
  call of \<open>timestampOffset\<close> with a defined argument leaves the cached offset as it
  is: after any such events a read of a new updater returns 0, and from any state such
  events keep the cached offset.
\<close>

theorem timestampOffset_initially_zero:
  assumes "SourceUpdater ms mimeType type sourceBufferEmitter = Inr s0"
    and "run es s0 = Inr s" and "\<forall>e\<in>set es. \<not> sets_offset e"
    and "run es' t = Inr t'" and "\<forall>e\<in>set es'. \<not> sets_offset e"
  shows "timestampOffset' s0 = 0 \<and> fst (timestampOffset None s) = 0 \<and>
         timestampOffset' t' = timestampOffset' t"
proof -
  from assms(1) have "timestampOffset' s0 = 0" by (rule new_timestampOffset)
  moreover from assms(2,3) have "timestampOffset' s = timestampOffset' s0"
    by (rule run_timestampOffset)
  moreover from assms(4,5) have "timestampOffset' t' = timestampOffset' t"
    by (rule run_timestampOffset)
  ultimately show ?thesis by (simp add: timestampOffset_def)
qed


lemma runCallback_no_buffer: "sourceBuffer' s = None \<Longrightarrow> runCallback' s = s"
  by (simp add: runCallback'_def updating_def)

lemma queueCallback_no_buffer:
  "sourceBuffer' s = None \<Longrightarrow> sourceBuffer' (queueCallback' callback done s) = None"
  by (simp add: queueCallback'_def runCallback_no_buffer)

lemma step_no_buffer:
  assumes "step e s = Inr s'" and "e \<noteq> Sourceopen" and "sourceBuffer' s = None"
  shows "sourceBuffer' s' = None"
proof (cases e)
  case (CallAbort d)
  with assms show ?thesis by (auto simp: abort_def queueCallback_no_buffer)
next
  case (CallAppendBuffer b d)
  with assms show ?thesis by (auto simp: appendBuffer_def queueCallback_no_buffer)
next
  case (CallRemove a b d)
  with assms show ?thesis by (auto simp: remove_def Let_def queueCallback_no_buffer)
next
  case (CallTimestampOffset offset)
  with assms show ?thesis
    by (cases offset) (auto simp: timestampOffset_def Let_def queueCallback_no_buffer)
next
  case CallDispose
  with assms show ?thesis by (simp add: dispose_def)
next
  case Sourceopen
  with assms show ?thesis by simp
next
  case Sourcebufferadded
  with assms show ?thesis
    by (cases "sourcebufferadded_listeners s")
      (auto simp: fire_sourcebufferadded_def start'_def Let_def)
next
  case (Updateend ev)
  with assms show ?thesis by (auto simp: fire_updateend_def)
next
  case (SetUpdating b)
  with assms show ?thesis by (auto simp: set_updating_def)
next
  case (SetReadyState r)
  with assms show ?thesis by auto
qed

lemma run_no_buffer:
  assumes "run es s = Inr s'" and "Sourceopen \<notin> set es" and "sourceBuffer' s = None"
  shows "sourceBuffer' s' = None"
  using assms
proof (induction es arbitrary: s)
  case Nil
  then show ?case by simp
next
  case (Cons e es)
  from Cons.prems(1) obtain s1 where 1: "step e s = Inr s1" and 2: "run es s1 = Inr s'"
    by (auto split: sum.splits)
  from 1 Cons.prems(2,3) have "sourceBuffer' s1 = None"
    by (intro step_no_buffer [of e s s1]) auto
  with 2 Cons.prems(2) show ?case by (intro Cons.IH) auto
qed

lemma start_buffer:
  assumes "start' s = Inr s'"
  shows "sourceBuffer' s' \<noteq> None \<and> started' s'"
proof -
  from assms obtain sb where "sourceBuffer' s = Some sb"
    by (cases "sourceBuffer' s") (simp_all add: start'_def)
  with assms show ?thesis
    by (cases "s\<lparr>started' := True, onUpdateendCallback' := Some (closures s),
             closures := Suc (closures s),
             sourceBuffer' := Some (sb\<lparr>sb_listeners := sb_listeners sb @ [closures s]\<rparr>)\<rparr>"
        rule: runCallback_cases) (auto simp: start'_def Let_def)
qed

lemma start_returns: "sourceBuffer' s \<noteq> None \<Longrightarrow> \<exists>s'. start' s = Inr s'"
  by (auto simp: start'_def Let_def)

lemma call_listeners_returns:
  "sourceBuffer' s \<noteq> None \<Longrightarrow> \<exists>s'. call_listeners n s = Inr s' \<and> sourceBuffer' s' \<noteq> None"
proof (induction n arbitrary: s)
  case 0
  then show ?case by simp
next
  case (Suc n)
  then obtain s1 where 1: "start' s = Inr s1" using start_returns by blast
  then have "sourceBuffer' s1 \<noteq> None" by (simp add: start_buffer)
  then obtain s' where "call_listeners n s1 = Inr s' \<and> sourceBuffer' s' \<noteq> None"
    using Suc.IH by blast
  with 1 show ?case by simp
qed

lemma preserved_sourceopen_listener: "preserved (\<lambda>u. sourceopen_listener u = l)"
proof (rule preservedI)
  fix t :: sourceUpdater
  assume "sourceopen_listener t = l"
  then show "sourceopen_listener (runCallback' t) = l"
    by (cases t rule: runCallback_cases) simp_all
qed simp_all

lemma createSourceBuffer_returns:
  "\<exists>s'. createSourceBuffer' mimeType sourceBufferEmitter s = Inr s' \<and> sourceBuffer' s' \<noteq> None \<and>
        sourceopen_listener s' = sourceopen_listener s"
proof -
  let ?s1 = "s\<lparr>sourceBuffer' := Some (new_sourceBuffer mimeType),
               mediaSource := (mediaSource s)\<lparr>sourceBuffers := Suc (sourceBuffers (mediaSource s))\<rparr>\<rparr>"
  have l: "sourceopen_listener t' = sourceopen_listener s"
    if "createSourceBuffer' mimeType sourceBufferEmitter s = Inr t'" for t'
    using preserved_sourceopen_listener _ that by (rule preserved_createSourceBuffer) simp_all
  have "\<exists>s'. createSourceBuffer' mimeType sourceBufferEmitter s = Inr s' \<and> sourceBuffer' s' \<noteq> None"
  proof (cases sourceBufferEmitter)
    case False
    obtain s' where 1: "start' ?s1 = Inr s'"
      using start_returns [of ?s1] by auto
    then have "sourceBuffer' s' \<noteq> None" by (simp add: start_buffer)
    with False 1 show ?thesis by (simp add: createSourceBuffer'_def Let_def)
  next
    case True
    obtain s2 where 2: "call_listeners (sourcebufferadded_listeners ?s1)
        (?s1\<lparr>trace := trace ?s1 @ [Triggered]\<rparr>) = Inr s2" and 3: "sourceBuffer' s2 \<noteq> None"
      using call_listeners_returns [of "?s1\<lparr>trace := trace ?s1 @ [Triggered]\<rparr>"
          "sourcebufferadded_listeners ?s1"] by auto
    show ?thesis
    proof (cases "sourceBuffers (mediaSource s2) < 2")
      case True
      with \<open>sourceBufferEmitter\<close> 2 3 show ?thesis
        by (simp add: createSourceBuffer'_def Let_def)
    next
      case False
      obtain s' where 4: "start' s2 = Inr s'"
        using 3 start_returns [of s2] by auto
      then have "sourceBuffer' s' \<noteq> None" by (simp add: start_buffer)
      with False \<open>sourceBufferEmitter\<close> 2 4 show ?thesis
        by (simp add: createSourceBuffer'_def Let_def)
    qed
  qed
  with l show ?thesis by auto
qed

text \<open>
  C9, as the code has it. The constructor tests for the one state \<open>closed\<close>. On a
  closed media source it creates no buffer and adds a \<open>sourceopen\<close> listener; no
  event but \<open>sourceopen\<close> creates the buffer, and \<open>sourceopen\<close> creates it. On a
  media source in any other state, \<open>open\<close> or not, it creates the buffer at once and
  adds no listener.
\<close>

theorem constructor_waits_when_closed:
  "(readyState ms = ''closed'' \<longrightarrow>
      (\<exists>s. SourceUpdater ms mimeType type sourceBufferEmitter = Inr s \<and>
           sourceBuffer' s = None \<and> \<not> started' s \<and>
           sourceopen_listener s = Some (mimeType, sourceBufferEmitter) \<and>
           (\<forall>es s'. Sourceopen \<notin> set es \<longrightarrow> run es s = Inr s' \<longrightarrow> sourceBuffer' s' = None) \<and>
           (\<exists>s'. step Sourceopen s = Inr s' \<and> sourceBuffer' s' \<noteq> None))) \<and>
   (readyState ms \<noteq> ''closed'' \<longrightarrow>
      (\<exists>s. SourceUpdater ms mimeType type sourceBufferEmitter = Inr s \<and>
           sourceBuffer' s \<noteq> None \<and> sourceopen_listener s = None))"
proof (intro conjI impI)
  assume c: "readyState ms = ''closed''"
  let ?s = "\<lparr>callbacks' = [], pendingCallback' = None, timestampOffset' = 0,
            mediaSource = ms, processedAppend' = False, type' = type,
            mimeType' = mimeType, sourceBuffer' = None, started' = False,
            onUpdateendCallback' = None,
            sourceopen_listener = Some (mimeType, sourceBufferEmitter),
            sourcebufferadded_listeners = 0, closures = 0, trace = []\<rparr>"
  from c have 1: "SourceUpdater ms mimeType type sourceBufferEmitter = Inr ?s"
    by (simp add: SourceUpdater_def)
  have 2: "\<forall>es s'. Sourceopen \<notin> set es \<longrightarrow> run es ?s = Inr s' \<longrightarrow> sourceBuffer' s' = None"
    using run_no_buffer [of _ ?s] by simp
  have 3: "\<exists>s'. step Sourceopen ?s = Inr s' \<and> sourceBuffer' s' \<noteq> None"
    using createSourceBuffer_returns
      [of mimeType sourceBufferEmitter "?s\<lparr>mediaSource := ms\<lparr>readyState := ''open''\<rparr>\<rparr>"]
    by (auto simp: fire_sourceopen_def)
  from 1 2 3 show "\<exists>s. SourceUpdater ms mimeType type sourceBufferEmitter = Inr s \<and>
           sourceBuffer' s = None \<and> \<not> started' s \<and>
           sourceopen_listener s = Some (mimeType, sourceBufferEmitter) \<and>
           (\<forall>es s'. Sourceopen \<notin> set es \<longrightarrow> run es s = Inr s' \<longrightarrow> sourceBuffer' s' = None) \<and>
           (\<exists>s'. step Sourceopen s = Inr s' \<and> sourceBuffer' s' \<noteq> None)"
    by (intro exI [of _ ?s]) simp
next
  assume "readyState ms \<noteq> ''closed''"
  then show "\<exists>s. SourceUpdater ms mimeType type sourceBufferEmitter = Inr s \<and>
           sourceBuffer' s \<noteq> None \<and> sourceopen_listener s = None"
    using createSourceBuffer_returns [of mimeType sourceBufferEmitter
      "\<lparr>callbacks' = [], pendingCallback' = None, timestampOffset' = 0,
            mediaSource = ms, processedAppend' = False, type' = type,
            mimeType' = mimeType, sourceBuffer' = None, started' = False,
            onUpdateendCallback' = None, sourceopen_listener = None,
            sourcebufferadded_listeners = 0, closures = 0, trace = []\<rparr>"]
    by (auto simp: SourceUpdater_def)
qed

text \<open>
  C9, as the claim has it, fails on a media source that has ended: it is not open, and
  the constructor creates the buffer at once and adds no listener.
\<close>

theorem constructor_waits_when_closed_counterexample:
  "readyState \<lparr>readyState = ''ended'', sourceBuffers = 0\<rparr> \<noteq> ''open'' \<and>
   sourceopen_listener (projr (new_session \<lparr>readyState = ''ended'', sourceBuffers = 0\<rparr> False [])) = None \<and>
   sourceBuffer' (projr (new_session \<lparr>readyState = ''ended'', sourceBuffers = 0\<rparr> False [])) =
     Some \<lparr>sb_mimeType = ''video/mp4'', sb_updating = False, sb_timestampOffset = 0,
           sb_listeners = [0]\<rparr> \<and>
   new_session \<lparr>readyState = ''ended'', sourceBuffers = 0\<rparr> False [] =
     Inr (projr (new_session \<lparr>readyState = ''ended'', sourceBuffers = 0\<rparr> False []))"
  by (simp add: eval_defs)

theorem constructor_waits_when_closed_witness:
  "(\<exists>s. SourceUpdater \<lparr>readyState = ''closed'', sourceBuffers = 0\<rparr> ''video/mp4'' ''main'' False = Inr s \<and>
           sourceBuffer' s = None \<and> \<not> started' s \<and>
           sourceopen_listener s = Some (''video/mp4'', False) \<and>
           (\<exists>s'. step Sourceopen s = Inr s' \<and> sourceBuffer' s' \<noteq> None)) \<and>
   (\<exists>s. SourceUpdater \<lparr>readyState = ''ended'', sourceBuffers = 0\<rparr> ''video/mp4'' ''main'' False = Inr s \<and>
           sourceBuffer' s \<noteq> None \<and> sourceopen_listener s = None)"
  using constructor_waits_when_closed [of "\<lparr>readyState = ''closed'', sourceBuffers = 0\<rparr>" "''video/mp4''" "''main''" False]
    constructor_waits_when_closed [of "\<lparr>readyState = ''ended'', sourceBuffers = 0\<rparr>" "''video/mp4''" "''main''" False]
  by auto

text \<open>
  C8. \<open>dispose()\<close> on an updater whose media source has not opened yet: no buffer has
  been created, and line 198 raises.
\<close>

theorem dispose_before_sourceopen_raises:
  "new_session \<lparr>readyState = ''closed'', sourceBuffers = 0\<rparr> False [CallDispose] = Inl TypeError"
  by (simp add: eval_defs)

theorem timestampOffset_initially_zero_witness:
  "timestampOffset' (projr (new_session \<lparr>readyState = ''open'', sourceBuffers = 0\<rparr> False [])) = 0 \<and>
   fst (timestampOffset None (projr (new_session \<lparr>readyState = ''open'', sourceBuffers = 0\<rparr> False
     [CallAppendBuffer [1] (Some (Done 1)), CallRemove 0 1 None, Updateend Completed,
      CallTimestampOffset None]))) = 0 \<and>
   timestampOffset' (projr (new_session \<lparr>readyState = ''open'', sourceBuffers = 0\<rparr> False
     [CallTimestampOffset (Some 5), CallAppendBuffer [1] (Some (Done 1)), Updateend Completed,
      CallAbort None])) = 5"
proof -
  let ?ms = "\<lparr>readyState = ''open'', sourceBuffers = 0\<rparr>"
  let ?s0 = "projr (new_session ?ms False [])"
  let ?es = "[CallAppendBuffer [1] (Some (Done 1)), CallRemove 0 1 None, Updateend Completed,
      CallTimestampOffset None]"
  let ?es' = "[CallAppendBuffer [1] (Some (Done 1)), Updateend Completed, CallAbort None]"
  let ?t = "projr (new_session ?ms False [CallTimestampOffset (Some 5)])"
  have 1: "SourceUpdater ?ms ''video/mp4'' ''main'' False = Inr ?s0"
    by (simp add: eval_defs)
  have 2: "run ?es ?s0 = Inr (projr (new_session ?ms False ?es))"
    by (simp add: eval_defs)
  have 3: "\<forall>e\<in>set ?es. \<not> sets_offset e" by simp
  have 4: "run ?es' ?t = Inr (projr (new_session ?ms False (CallTimestampOffset (Some 5) # ?es')))"
    by (simp add: eval_defs)
  have 5: "\<forall>e\<in>set ?es'. \<not> sets_offset e" by simp
  have 6: "timestampOffset' ?t = 5" by (simp add: eval_defs)
  from timestampOffset_initially_zero [OF 1 2 3 4 5] 6 show ?thesis by simp
qed

text \<open>
  C7, as the code has it. When an \<open>updateend\<close> event reaches an updater with one
  handler on its buffer and a pending completion callback, then, whatever the event
  reports, the callback is called once and with no argument, nothing is pending any more,
  and \<open>runCallback'\<close> runs: if the updater has started and the buffer is not updating,
  the head of the queue is dispatched.
\<close>

theorem updateend_calls_back_without_arguments:
  assumes "pendingCallback' s = Some f" and "sourceBuffer' s = Some sb"
    and "length (sb_listeners sb) = 1"
  shows "step (Updateend ev) s =
           Inr (runCallback' (s\<lparr>pendingCallback' := None,
                                  trace := trace s @ [Handler ev, Called f []]\<rparr>)) \<and>
         trace (fire_updateend ev s) =
           trace s @ [Handler ev, Called f []] @
             (if started' s \<and> \<not> sb_updating sb
              then (case callbacks' s of [] \<Rightarrow> [] | (callback, done) # rest \<Rightarrow> [Dispatched callback done])
              else []) \<and>
         calls (trace (fire_updateend ev s)) = calls (trace s) @ [f]"
proof -
  let ?s2 = "s\<lparr>pendingCallback' := None, trace := trace s @ [Handler ev, Called f []]\<rparr>"
  from assms(3) have "(onUpdateend ev ^^ length (sb_listeners sb)) s = onUpdateend ev s"
    by simp
  with assms(1,2) have 1: "fire_updateend ev s = runCallback' ?s2"
    by (simp add: fire_updateend_def onUpdateend_def)
  have 2: "trace (runCallback' ?s2) =
           trace s @ [Handler ev, Called f []] @
             (if started' s \<and> \<not> sb_updating sb
              then (case callbacks' s of [] \<Rightarrow> [] | (callback, done) # rest \<Rightarrow> [Dispatched callback done])
              else [])"
    using assms(2) by (cases "callbacks' s") (auto simp: runCallback'_def updating_def)
  then have "calls (trace (runCallback' ?s2)) = calls (trace s) @ [f]"
    by (simp split: list.splits)
  with 1 2 show ?thesis by simp
qed

text \<open>
  C7, as the claim has it, fails: an append is in flight and its \<open>updateend\<close> event
  reports a failure; the callback is called with no argument.
\<close>

theorem updateend_calls_back_without_arguments_counterexample:
  "new_session \<lparr>readyState = ''open'', sourceBuffers = 0\<rparr> False
     [CallAppendBuffer [1] (Some (Done 1)), Updateend (Failed ''decode'')] =
   Inr (projr (new_session \<lparr>readyState = ''open'', sourceBuffers = 0\<rparr> False
     [CallAppendBuffer [1] (Some (Done 1)), Updateend (Failed ''decode'')])) \<and>
   trace (projr (new_session \<lparr>readyState = ''open'', sourceBuffers = 0\<rparr> False
     [CallAppendBuffer [1] (Some (Done 1)), Updateend (Failed ''decode'')])) =
   [Queued (AppendAction [1]) (Some (Done 1)), Dispatched (AppendAction [1]) (Some (Done 1)),
    Handler (Failed ''decode''), Called (Done 1) []] \<and>
   Called (Done 1) [Failed ''decode''] \<notin> set (trace (projr
     (new_session \<lparr>readyState = ''open'', sourceBuffers = 0\<rparr> False
       [CallAppendBuffer [1] (Some (Done 1)), Updateend (Failed ''decode'')])))"
  by (simp add: eval_defs)

theorem updateend_calls_back_without_arguments_witness:
  "trace (fire_updateend (Failed ''decode'')
     (projr (new_session \<lparr>readyState = ''open'', sourceBuffers = 0\<rparr> False
        [CallAppendBuffer [1] (Some (Done 1)), CallRemove 0 1 (Some (Done 2))]))) =
   [Queued (AppendAction [1]) (Some (Done 1)), Dispatched (AppendAction [1]) (Some (Done 1)),
    Queued (RemoveAction 0 1) (Some (Done 2)),
    Handler (Failed ''decode''), Called (Done 1) [],
    Dispatched (RemoveAction 0 1) (Some (Done 2))]"
proof -
  let ?s = "projr (new_session \<lparr>readyState = ''open'', sourceBuffers = 0\<rparr> False
        [CallAppendBuffer [1] (Some (Done 1)), CallRemove 0 1 (Some (Done 2))])"
  let ?sb = "\<lparr>sb_mimeType = ''video/mp4'', sb_updating = False, sb_timestampOffset = 0,
             sb_listeners = [0]\<rparr>"
  have 1: "pendingCallback' ?s = Some (Done 1)" by (simp add: eval_defs)
  have 2: "sourceBuffer' ?s = Some ?sb" by (simp add: eval_defs)
  have 3: "length (sb_listeners ?sb) = 1" by simp
  have 4: "started' ?s" by (simp add: eval_defs)
  have 5: "callbacks' ?s = [(RemoveAction 0 1, Some (Done 2))]" by (simp add: eval_defs)
  have 6: "trace ?s = [Queued (AppendAction [1]) (Some (Done 1)),
    Dispatched (AppendAction [1]) (Some (Done 1)), Queued (RemoveAction 0 1) (Some (Done 2))]"
    by (simp add: eval_defs)
  from updateend_calls_back_without_arguments [OF 1 2 3, of "Failed ''decode''"]
  have "trace (fire_updateend (Failed ''decode'') ?s) =
           trace ?s @ [Handler (Failed ''decode''), Called (Done 1) []] @
             (if started' ?s \<and> \<not> sb_updating ?sb
              then (case callbacks' ?s of [] \<Rightarrow> []
                    | (callback, done) # rest \<Rightarrow> [Dispatched callback done])
              else [])"
    by (rule conjunct1 [OF conjunct2])
  with 4 5 6 show ?thesis by simp
qed

text \<open>
  C3. In every state an updater can be in, \<open>runCallback'\<close> dispatches the head of the
  queue if and only if the updater has started, the buffer is not updating, no completion
  callback is pending and the queue is not empty. When it dispatches, it takes the head
  off the queue, makes its completion callback the pending one and calls its action on
  the buffer; when it does not, it changes nothing.
\<close>

theorem runCallback_dispatches_iff:
  assumes "reachable s"
  shows "(started' s \<and> \<not> busy s \<and> pendingCallback' s = None \<and> callbacks' s \<noteq> [] \<longrightarrow>
           (\<exists>callback done rest sb.
              callbacks' s = (callback, done) # rest \<and> sourceBuffer' s = Some sb \<and>
              runCallback' s =
                s\<lparr>callbacks' := rest, pendingCallback' := done,
                  sourceBuffer' := Some (call_action callback sb),
                  trace := trace s @ [Dispatched callback done]\<rparr>)) \<and>
         (\<not> (started' s \<and> \<not> busy s \<and> pendingCallback' s = None \<and> callbacks' s \<noteq> []) \<longrightarrow>
           runCallback' s = s)"
proof (intro conjI impI)
  assume a: "started' s \<and> \<not> busy s \<and> pendingCallback' s = None \<and> callbacks' s \<noteq> []"
  with assms obtain sb where sb: "sourceBuffer' s = Some sb"
    using started_has_buffer by blast
  from a obtain callback "done" rest where q: "callbacks' s = (callback, done) # rest"
    by (cases "callbacks' s") auto
  from a sb q have "runCallback' s =
                s\<lparr>callbacks' := rest, pendingCallback' := done,
                  sourceBuffer' := Some (call_action callback sb),
                  trace := trace s @ [Dispatched callback done]\<rparr>"
    by (simp add: runCallback'_def updating_def busy_def)
  with sb q show "\<exists>callback done rest sb.
              callbacks' s = (callback, done) # rest \<and> sourceBuffer' s = Some sb \<and>
              runCallback' s =
                s\<lparr>callbacks' := rest, pendingCallback' := done,
                  sourceBuffer' := Some (call_action callback sb),
                  trace := trace s @ [Dispatched callback done]\<rparr>"
    by blast
next
  assume "\<not> (started' s \<and> \<not> busy s \<and> pendingCallback' s = None \<and> callbacks' s \<noteq> [])"
  then show "runCallback' s = s"
    by (cases s rule: runCallback_cases) (auto simp: busy_def)
qed

theorem runCallback_dispatches_iff_witness:
  "trace (runCallback' (projr (new_session \<lparr>readyState = ''open'', sourceBuffers = 0\<rparr> False
      [SetUpdating True, CallAppendBuffer [1] (Some (Done 1)), SetUpdating False]))) =
     [Queued (AppendAction [1]) (Some (Done 1)), Dispatched (AppendAction [1]) (Some (Done 1))] \<and>
   pendingCallback' (runCallback' (projr (new_session \<lparr>readyState = ''open'', sourceBuffers = 0\<rparr> False
      [SetUpdating True, CallAppendBuffer [1] (Some (Done 1)), SetUpdating False]))) =
     Some (Done 1) \<and>
   callbacks' (runCallback' (projr (new_session \<lparr>readyState = ''open'', sourceBuffers = 0\<rparr> False
      [SetUpdating True, CallAppendBuffer [1] (Some (Done 1)), SetUpdating False]))) = []"
proof -
  let ?es = "[SetUpdating True, CallAppendBuffer [1] (Some (Done 1)), SetUpdating False]"
  let ?new = "projr (new_session \<lparr>readyState = ''open'', sourceBuffers = 0\<rparr> False [])"
  let ?s = "projr (new_session \<lparr>readyState = ''open'', sourceBuffers = 0\<rparr> False ?es)"
  have "SourceUpdater \<lparr>readyState = ''open'', sourceBuffers = 0\<rparr> ''video/mp4'' ''main'' False = Inr ?new"
    by (simp add: eval_defs)
  then have "reachable ?new" by (rule reachable_new)
  moreover have "run ?es ?new = Inr ?s"
    by (simp add: eval_defs)
  ultimately have 1: "reachable ?s" by (rule reachable_run)
  have 2: "started' ?s" and 3: "\<not> busy ?s" and 4: "pendingCallback' ?s = None"
    and 5: "callbacks' ?s = [(AppendAction [1], Some (Done 1))]"
    and 6: "trace ?s = [Queued (AppendAction [1]) (Some (Done 1))]"
    by (simp_all add: eval_defs busy_def)
  from runCallback_dispatches_iff [OF 1] 2 3 4 5 6 show ?thesis by auto
qed

lemma queueCallback_processedAppend:
  "processedAppend' (queueCallback' callback done s) = processedAppend' s"
  using preserved_processedAppend [of "processedAppend' s"]
  by (rule preserved_queueCallback) simp

lemma step_processedAppend:
  assumes "step e s = Inr s'"
  shows "processedAppend' s' = (processedAppend' s \<or> is_append e)"
proof (cases "is_append e")
  case True
  then obtain bytes "done" where "e = CallAppendBuffer bytes done"
    by (cases e) simp_all
  with assms show ?thesis
    by (auto simp: appendBuffer_def queueCallback_processedAppend)
next
  case False
  have "processedAppend' s' = processedAppend' s"
    using preserved_processedAppend [of "processedAppend' s"] _ assms
  proof (rule preserved_step)
    fix t :: sourceUpdater and bytes "done"
    assume "e = CallAppendBuffer bytes done"
    with False show "processedAppend' (t\<lparr>processedAppend' := True\<rparr>) = processedAppend' s"
      by simp
  qed simp_all
  with False show ?thesis by simp
qed

lemma run_processedAppend:
  assumes "run es s = Inr s'"
  shows "processedAppend' s' = (processedAppend' s \<or> (\<exists>e\<in>set es. is_append e))"
  using assms
proof (induction es arbitrary: s)
  case Nil
  then show ?case by simp
next
  case (Cons e es)
  from Cons.prems obtain s1 where 1: "step e s = Inr s1" and 2: "run es s1 = Inr s'"
    by (auto split: sum.splits)
  from 1 have "processedAppend' s1 = (processedAppend' s \<or> is_append e)"
    by (rule step_processedAppend)
  moreover from 2 have "processedAppend' s' = (processedAppend' s1 \<or> (\<exists>e\<in>set es. is_append e))"
    by (rule Cons.IH)
  ultimately show ?case by auto
qed

lemma new_processedAppend:
  assumes "SourceUpdater ms mimeType type sourceBufferEmitter = Inr s"
  shows "\<not> processedAppend' s"
proof -
  have "processedAppend' s = False"
    using preserved_processedAppend [of False] _ assms by (rule preserved_new) simp_all
  then show ?thesis by simp
qed

lemma queued_queueCallback:
  "queued (trace (queueCallback' callback done s)) = queued (trace s) @ [(callback, done)]"
  unfolding queueCallback'_def
  by (cases "s\<lparr>callbacks' := callbacks' s @ [(callback, done)],
                 trace := trace s @ [Queued callback done]\<rparr>" rule: runCallback_cases)
    simp_all

lemma dones_queueCallback:
  "dones (trace (queueCallback' callback done s)) = dones (trace s) @ opt_list done"
  unfolding queueCallback'_def
  by (cases "s\<lparr>callbacks' := callbacks' s @ [(callback, done)],
                 trace := trace s @ [Queued callback done]\<rparr>" rule: runCallback_cases)
    simp_all

lemma preserved_dones: "preserved (\<lambda>u. dones (trace u) = c)"
proof (rule preservedI)
  fix t :: sourceUpdater
  assume "dones (trace t) = c"
  then show "dones (trace (runCallback' t)) = c"
    by (cases t rule: runCallback_cases) simp_all
qed simp_all

lemma step_dones:
  assumes "step e s = Inr s'"
  shows "dones (trace s') = dones (trace s) @ promised (processedAppend' s) e"
proof (cases "is_call e")
  case True
  with assms show ?thesis
    by (cases e rule: is_call.cases)
      (auto simp: abort_def appendBuffer_def remove_def timestampOffset_def Let_def
        dones_queueCallback)
next
  case False
  then have "promised (processedAppend' s) e = []"
    by (cases e rule: is_call.cases) simp_all
  moreover have "dones (trace s') = dones (trace s)"
    using preserved_dones [of "dones (trace s)"] _ assms
    by (rule preserved_step) (use False in simp_all)
  ultimately show ?thesis by simp
qed

lemma run_dones:
  assumes "run es s = Inr s'"
  shows "dones (trace s') = dones (trace s) @ promises (processedAppend' s) es"
  using assms
proof (induction es arbitrary: s)
  case Nil
  then show ?case by simp
next
  case (Cons e es)
  from Cons.prems obtain s1 where 1: "step e s = Inr s1" and 2: "run es s1 = Inr s'"
    by (auto split: sum.splits)
  from 1 have "dones (trace s1) = dones (trace s) @ promised (processedAppend' s) e"
    by (rule step_dones)
  moreover from 1 have "processedAppend' s1 = (processedAppend' s \<or> is_append e)"
    by (rule step_processedAppend)
  moreover from 2 have "dones (trace s') = dones (trace s1) @ promises (processedAppend' s1) es"
    by (rule Cons.IH)
  ultimately show ?case by simp
qed

lemma new_dones:
  assumes "SourceUpdater ms mimeType type sourceBufferEmitter = Inr s"
  shows "dones (trace s) = []"
  using preserved_dones [of "[]"] _ assms by (rule preserved_new) simp_all

lemma call_action_flags [simp]:
  "sb_updating (call_action callback sb) = sb_updating sb"
  "sb_listeners (call_action callback sb) = sb_listeners sb"
  by (cases callback; simp)+

lemma onUpdateend_idle:
  assumes "started' t" and "sourceBuffer' t = Some sb" and "\<not> sb_updating sb"
  shows "started' (onUpdateend ev t) \<and>
         (\<exists>sb'. sourceBuffer' (onUpdateend ev t) = Some sb' \<and> \<not> sb_updating sb' \<and>
                sb_listeners sb' = sb_listeners sb) \<and>
         outstanding (onUpdateend ev t) \<le> outstanding t - 1"
  using assms
  by (cases "callbacks' t"; cases "pendingCallback' t")
    (auto simp: onUpdateend_def runCallback'_def updating_def outstanding_def)

lemma funpow_onUpdateend_idle:
  assumes "started' t" and "sourceBuffer' t = Some sb" and "\<not> sb_updating sb"
  shows "started' ((onUpdateend ev ^^ n) t) \<and>
         (\<exists>sb'. sourceBuffer' ((onUpdateend ev ^^ n) t) = Some sb' \<and> \<not> sb_updating sb' \<and>
                sb_listeners sb' = sb_listeners sb) \<and>
         outstanding ((onUpdateend ev ^^ n) t) \<le> outstanding t - n"
proof (induction n)
  case 0
  with assms show ?case by simp
next
  case (Suc n)
  let ?u = "(onUpdateend ev ^^ n) t"
  from Suc obtain sb' where u: "started' ?u" "sourceBuffer' ?u = Some sb'" "\<not> sb_updating sb'"
    "sb_listeners sb' = sb_listeners sb" and o: "outstanding ?u \<le> outstanding t - n"
    by blast
  from onUpdateend_idle [OF u(1-3), where ev = ev] u(4) o show ?case by auto
qed

lemma run_completions:
  assumes "started' s" and "sourceBuffer' s = Some sb" and "sb_listeners sb \<noteq> []"
  shows "\<exists>s'. run (completions evs) s = Inr s' \<and> outstanding s' \<le> outstanding s - length evs"
  using assms
proof (induction evs arbitrary: s sb)
  case Nil
  then show ?case by simp
next
  case (Cons ev evs)
  let ?t = "s\<lparr>sourceBuffer' := Some (sb\<lparr>sb_updating := False\<rparr>)\<rparr>"
  let ?n = "length (sb_listeners sb)"
  let ?u = "(onUpdateend ev ^^ ?n) ?t"
  from Cons.prems have t: "started' ?t" "sourceBuffer' ?t = Some (sb\<lparr>sb_updating := False\<rparr>)"
    "\<not> sb_updating (sb\<lparr>sb_updating := False\<rparr>)"
    by simp_all
  from funpow_onUpdateend_idle [OF t, where ev = ev and n = ?n]
  obtain sb' where u: "started' ?u" "sourceBuffer' ?u = Some sb'"
    "sb_listeners sb' = sb_listeners sb" and o: "outstanding ?u \<le> outstanding ?t - ?n"
    by auto
  from Cons.prems(3) have "outstanding s - ?n \<le> outstanding s - 1"
    by (cases "sb_listeners sb") simp_all
  moreover have "outstanding ?t = outstanding s" by (simp add: outstanding_def)
  ultimately have o': "outstanding ?u \<le> outstanding s - 1" using o by linarith
  from u Cons.prems(3) obtain s' where
    r: "run (completions evs) ?u = Inr s'" and "outstanding s' \<le> outstanding ?u - length evs"
    using Cons.IH [of ?u sb'] by auto
  with o' have "outstanding s' \<le> outstanding s - length (ev # evs)" by simp
  moreover from Cons.prems(2) r have "run (completions (ev # evs)) s = Inr s'"
    by (simp add: set_updating_def fire_updateend_def)
  ultimately show ?case by blast
qed

lemma promises_completions [simp]: "promises appended (completions evs) = []"
  by (induction evs) simp_all

lemma outstanding_0: "outstanding s = 0 \<Longrightarrow> awaited s = []"
  by (simp add: outstanding_def awaited_def split: if_splits)

text \<open>
  C1. Take an updater after any events since its construction: calls of its methods,
  \<open>updateend\<close> events and everything else the environment does, in any order. The
  completion callbacks called so far are the first of the completion callbacks handed
  to the queue, in the order they were handed in: none is called twice or before an
  earlier one. When the updater has started and its handler is on the buffer, and
  completion notifications then arrive, more of them than the queue is long, every
  completion callback handed to the queue has been called, once, in that order.
\<close>

theorem callbacks_once_in_order:
  assumes "SourceUpdater ms mimeType type sourceBufferEmitter = Inr s0"
    and "run es s0 = Inr s"
  shows "prefix (calls (trace s)) (promises False es) \<and>
         (started' s \<and> (\<exists>sb. sourceBuffer' s = Some sb \<and> sb_listeners sb \<noteq> []) \<and>
          length (callbacks' s) < length evs \<longrightarrow>
            (\<exists>s'. run (completions evs) s = Inr s' \<and> calls (trace s') = promises False es))"
proof -
  from assms(1) have "reachable s0" by (rule reachable_new)
  then have r: "reachable s" using assms(2) by (rule reachable_run)
  from assms have d: "dones (trace s) = promises False es"
    using run_dones [of es s0 s] new_dones [of ms mimeType type sourceBufferEmitter s0]
      new_processedAppend [of ms mimeType type sourceBufferEmitter s0]
    by simp
  from r have "calls (trace s) @ awaited s = dones (trace s)" by (rule callbacks_accounted)
  with d have 1: "prefix (calls (trace s)) (promises False es)"
    by (metis prefixI)
  have 2: "\<exists>s'. run (completions evs) s = Inr s' \<and> calls (trace s') = promises False es"
    if "started' s" and "sourceBuffer' s = Some sb" and "sb_listeners sb \<noteq> []"
      and "length (callbacks' s) < length evs" for sb
  proof -
    from that(1-3) obtain s' where s': "run (completions evs) s = Inr s'"
      and "outstanding s' \<le> outstanding s - length evs"
      using run_completions by blast
    with that(4) have "outstanding s' = 0" by (simp add: outstanding_def split: if_splits)
    then have "awaited s' = []" by (rule outstanding_0)
    moreover from r s' have "reachable s'" by (rule reachable_run)
    then have "calls (trace s') @ awaited s' = dones (trace s')" by (rule callbacks_accounted)
    moreover from s' have "dones (trace s') = dones (trace s)" by (simp add: run_dones)
    ultimately show ?thesis using d s' by simp
  qed
  from 1 2 show ?thesis by blast
qed

theorem callbacks_once_in_order_witness:
  "prefix
     (calls (trace (projr (new_session \<lparr>readyState = ''open'', sourceBuffers = 0\<rparr> False
        [CallRemove 0 1 (Some (Done 9)), CallAppendBuffer [1] (Some (Done 1)),
         CallAbort (Some (Done 2)), CallRemove 0 1 (Some (Done 3))]))))
     [Done 1, Done 2, Done 3] \<and>
   calls (trace (projr (new_session \<lparr>readyState = ''open'', sourceBuffers = 0\<rparr> False
        [CallRemove 0 1 (Some (Done 9)), CallAppendBuffer [1] (Some (Done 1)),
         CallAbort (Some (Done 2)), CallRemove 0 1 (Some (Done 3)),
         SetUpdating False, Updateend Completed, SetUpdating False, Updateend (Failed ''decode''),
         SetUpdating False, Updateend Completed]))) =
     [Done 1, Done 2, Done 3]"
proof -
  let ?ms = "\<lparr>readyState = ''open'', sourceBuffers = 0\<rparr>"
  let ?es = "[CallRemove 0 1 (Some (Done 9)), CallAppendBuffer [1] (Some (Done 1)),
         CallAbort (Some (Done 2)), CallRemove 0 1 (Some (Done 3))]"
  let ?evs = "[Completed, Failed ''decode'', Completed]"
  let ?new = "projr (new_session ?ms False [])"
  let ?s = "projr (new_session ?ms False ?es)"
  let ?t = "projr (new_session ?ms False (?es @ completions ?evs))"
  let ?sb = "\<lparr>sb_mimeType = ''video/mp4'', sb_updating = False, sb_timestampOffset = 0,
             sb_listeners = [0]\<rparr>"
  have 1: "SourceUpdater ?ms ''video/mp4'' ''main'' False = Inr ?new"
    by (simp add: eval_defs)
  have 2: "run ?es ?new = Inr ?s" by (simp add: eval_defs)
  have 3: "started' ?s" and 4: "sourceBuffer' ?s = Some ?sb"
    and 5: "length (callbacks' ?s) < length ?evs"
    by (simp_all add: eval_defs)
  have 6: "run (completions ?evs) ?s = Inr ?t" by (simp add: eval_defs)
  have 7: "promises False ?es = [Done 1, Done 2, Done 3]" by simp
  from callbacks_once_in_order [OF 1 2, of ?evs] 3 4 5
  have "prefix (calls (trace ?s)) (promises False ?es) \<and>
        (\<exists>s'. run (completions ?evs) ?s = Inr s' \<and> calls (trace s') = promises False ?es)"
    by simp
  with 6 7 show ?thesis by simp
qed

lemma not_started_nothing_pending:
  assumes "reachable s" and "\<not> started' s"
  shows "pendingCallback' s = None"
proof -
  from assms(1) have "started' s \<or> pendingCallback' s = None"
  proof (rule preserved_reachable)
    show "preserved (\<lambda>s. started' s \<or> pendingCallback' s = None)"
    proof (rule preservedI)
      fix t :: sourceUpdater
      assume "started' t \<or> pendingCallback' t = None"
      then show "started' (runCallback' t) \<or> pendingCallback' (runCallback' t) = None"
        by (cases t rule: runCallback_cases) simp_all
    qed simp_all
  qed simp_all
  with assms(2) show ?thesis by simp
qed

lemma preserved_queued: "preserved (\<lambda>u. queued (trace u) = c)"
proof (rule preservedI)
  fix t :: sourceUpdater
  assume "queued (trace t) = c"
  then show "queued (trace (runCallback' t)) = c"
    by (cases t rule: runCallback_cases) simp_all
qed simp_all

lemma preserved_is_started: "preserved (\<lambda>u. started' u)"
proof (rule preservedI)
  fix t :: sourceUpdater
  assume "started' t"
  then show "started' (runCallback' t)"
    by (cases t rule: runCallback_cases) simp_all
qed simp_all

lemma preserved_has_dispatched: "preserved (\<lambda>u. dispatched (trace u) \<noteq> [])"
proof (rule preservedI)
  fix t :: sourceUpdater
  assume "dispatched (trace t) \<noteq> []"
  then show "dispatched (trace (runCallback' t)) \<noteq> []"
    by (cases t rule: runCallback_cases) simp_all
qed simp_all

lemma runCallback_not_started: "\<not> started' s \<Longrightarrow> runCallback' s = s"
  by (simp add: runCallback'_def)

lemma onUpdateend_awaiting: "awaiting_pairing s \<Longrightarrow> awaiting_pairing (onUpdateend ev s)"
  by (cases "pendingCallback' s")
    (simp_all add: awaiting_pairing_def onUpdateend_def runCallback_not_started)

lemma fire_updateend_awaiting:
  assumes "awaiting_pairing s"
  shows "awaiting_pairing (fire_updateend ev s)"
proof -
  have "awaiting_pairing ((onUpdateend ev ^^ n) s)" for n
    by (induction n) (simp_all add: assms onUpdateend_awaiting)
  with assms show ?thesis
    by (simp add: fire_updateend_def split: option.split)
qed

lemma queueCallback_awaiting:
  "awaiting_pairing s \<Longrightarrow> awaiting_pairing (queueCallback' callback done s)"
  by (simp add: awaiting_pairing_def queueCallback'_def runCallback_not_started)

lemma step_awaiting:
  assumes "awaiting_pairing s" and "e \<noteq> Sourcebufferadded" and "e \<noteq> Sourceopen"
  shows "\<exists>s'. step e s = Inr s' \<and> awaiting_pairing s'"
proof (cases e)
  case (CallAbort d)
  with assms(1) show ?thesis by (simp add: abort_def queueCallback_awaiting)
next
  case (CallAppendBuffer b d)
  from assms(1) have "awaiting_pairing (s\<lparr>processedAppend' := True\<rparr>)"
    by (simp add: awaiting_pairing_def)
  with CallAppendBuffer show ?thesis by (simp add: appendBuffer_def queueCallback_awaiting)
next
  case (CallRemove a b d)
  with assms(1) show ?thesis by (simp add: remove_def Let_def queueCallback_awaiting)
next
  case (CallTimestampOffset offset)
  show ?thesis
  proof (cases offset)
    case None
    with CallTimestampOffset assms(1) show ?thesis by (simp add: timestampOffset_def)
  next
    case (Some v)
    from assms(1) have "awaiting_pairing (queueCallback' (OffsetAction v) None s)"
      by (rule queueCallback_awaiting)
    then have "awaiting_pairing ((queueCallback' (OffsetAction v) None s)\<lparr>timestampOffset' := v\<rparr>)"
      by (simp add: awaiting_pairing_def)
    with Some CallTimestampOffset show ?thesis by (simp add: timestampOffset_def Let_def)
  qed
next
  case CallDispose
  with assms(1) show ?thesis
    by (auto simp: awaiting_pairing_def dispose_def Let_def)
next
  case Sourceopen
  with assms(3) show ?thesis by simp
next
  case Sourcebufferadded
  with assms(2) show ?thesis by simp
next
  case (Updateend ev)
  with assms(1) show ?thesis by (simp add: fire_updateend_awaiting)
next
  case (SetUpdating b)
  with assms(1) show ?thesis by (auto simp: awaiting_pairing_def set_updating_def)
next
  case (SetReadyState r)
  with assms(1) show ?thesis by (simp add: awaiting_pairing_def)
qed

lemma run_awaiting:
  assumes "awaiting_pairing s" and "Sourcebufferadded \<notin> set es" and "Sourceopen \<notin> set es"
  shows "\<exists>s'. run es s = Inr s' \<and> awaiting_pairing s'"
  using assms
proof (induction es arbitrary: s)
  case Nil
  then show ?case by simp
next
  case (Cons e es)
  then obtain s1 where 1: "step e s = Inr s1" and 2: "awaiting_pairing s1"
    using step_awaiting [of s e] by auto
  from 2 Cons.prems(2,3) obtain s' where "run es s1 = Inr s'" and "awaiting_pairing s'"
    using Cons.IH [of s1] by auto
  with 1 show ?case by simp
qed

lemma createSourceBuffer_awaiting:
  assumes "\<not> started' s" and "sourcebufferadded_listeners s = 0"
    and "sourceBuffers (mediaSource s) = 0"
  shows "\<exists>s'. createSourceBuffer' mimeType True s = Inr s' \<and> awaiting_pairing s' \<and>
           callbacks' s' = callbacks' s \<and> dispatched (trace s') = dispatched (trace s)"
  using assms by (simp add: createSourceBuffer'_def awaiting_pairing_def Let_def)

lemma runCallback_dispatch:
  assumes "sourceBuffer' s = Some sb" and "\<not> sb_updating sb" and "pendingCallback' s = None"
    and "callbacks' s = (callback, done) # rest" and "started' s"
  shows "runCallback' s =
           s\<lparr>callbacks' := rest, pendingCallback' := done,
             sourceBuffer' := Some (call_action callback sb),
             trace := trace s @ [Dispatched callback done]\<rparr>"
  using assms by (simp add: runCallback'_def updating_def)

lemma start_dispatches:
  assumes "sourceBuffer' s = Some sb" and "\<not> sb_updating sb" and "pendingCallback' s = None"
    and "callbacks' s \<noteq> []" and "start' s = Inr s'"
  shows "dispatched (trace s') \<noteq> []"
proof -
  let ?sb = "sb\<lparr>sb_listeners := sb_listeners sb @ [closures s]\<rparr>"
  let ?s2 = "s\<lparr>started' := True, onUpdateendCallback' := Some (closures s),
               closures := Suc (closures s), sourceBuffer' := Some ?sb\<rparr>"
  from assms(4) obtain callback "done" rest where q: "callbacks' s = (callback, done) # rest"
    by (cases "callbacks' s") auto
  have "runCallback' ?s2 =
           ?s2\<lparr>callbacks' := rest, pendingCallback' := done,
             sourceBuffer' := Some (call_action callback ?sb),
             trace := trace ?s2 @ [Dispatched callback done]\<rparr>"
    using assms(2,3) q by (intro runCallback_dispatch) simp_all
  then have "dispatched (trace (runCallback' ?s2)) \<noteq> []" by simp
  moreover from assms(1,5) have "s' = runCallback' ?s2"
    by (simp add: start'_def Let_def)
  ultimately show ?thesis by simp
qed

lemma sourcebufferadded_starts:
  assumes "awaiting_pairing s"
  shows "\<exists>s'. step Sourcebufferadded s = Inr s' \<and> started' s' \<and>
           (callbacks' s \<noteq> [] \<and> \<not> busy s \<and> pendingCallback' s = None \<longrightarrow>
              dispatched (trace s') \<noteq> [])"
proof -
  let ?s1 = "s\<lparr>mediaSource := (mediaSource s)\<lparr>sourceBuffers := Suc (sourceBuffers (mediaSource s))\<rparr>\<rparr>"
  from assms obtain sb where sb: "sourceBuffer' s = Some sb"
    by (auto simp: awaiting_pairing_def)
  from assms obtain n where n: "sourcebufferadded_listeners s = Suc n"
    by (cases "sourcebufferadded_listeners s") (simp_all add: awaiting_pairing_def)
  from sb obtain s2 where 1: "start' ?s1 = Inr s2"
    using start_returns [of ?s1] by auto
  from start_buffer [OF 1] have b2: "sourceBuffer' s2 \<noteq> None" and 2: "started' s2"
    by simp_all
  from b2 obtain s' where 3: "call_listeners n s2 = Inr s'"
    using call_listeners_returns [of s2 n] by blast
  from n 1 3 have 4: "step Sourcebufferadded s = Inr s'"
    by (simp add: fire_sourcebufferadded_def Let_def)
  from preserved_is_started 2 3 have 5: "started' s'" by (rule preserved_call_listeners)
  have 6: "dispatched (trace s') \<noteq> []"
    if "callbacks' s \<noteq> []" and "\<not> busy s" and "pendingCallback' s = None"
  proof -
    from that sb have "dispatched (trace s2) \<noteq> []"
      by (intro start_dispatches [OF _ _ _ _ 1, of sb]) (simp_all add: busy_def)
    with preserved_has_dispatched show ?thesis using 3 by (rule preserved_call_listeners)
  qed
  have "callbacks' s \<noteq> [] \<and> \<not> busy s \<and> pendingCallback' s = None \<longrightarrow>
          dispatched (trace s') \<noteq> []"
    using 6 by simp
  with 4 5 show ?thesis by (intro exI [of _ s']) simp
qed

lemma step_queued:
  assumes "step e s = Inr s'" and "\<not> is_call e"
  shows "queued (trace s') = queued (trace s)"
  using preserved_queued [of "queued (trace s)"] _ assms(1)
  by (rule preserved_step) (use assms(2) in simp_all)

lemma preserved_queued_prefix: "preserved (\<lambda>u. prefix c (queued (trace u)))"
proof (rule preservedI)
  fix t :: sourceUpdater
  assume "prefix c (queued (trace t))"
  then show "prefix c (queued (trace (runCallback' t)))"
    by (cases t rule: runCallback_cases) simp_all
qed simp_all

lemma step_queued_prefix:
  assumes "step e s = Inr s'" and "prefix c (queued (trace s))"
  shows "prefix c (queued (trace s'))"
  using preserved_queued_prefix [of c] assms(2,1)
  by (rule preserved_step) (simp_all add: prefix_prefix)

lemma run_queued_prefix:
  assumes "run es s = Inr s'" and "prefix c (queued (trace s))"
  shows "prefix c (queued (trace s'))"
  using assms
proof (induction es arbitrary: s)
  case Nil
  then show ?case by simp
next
  case (Cons e es)
  from Cons.prems(1) obtain s1 where 1: "step e s = Inr s1" and 2: "run es s1 = Inr s'"
    by (auto split: sum.splits)
  from 1 Cons.prems(2) have "prefix c (queued (trace s1))" by (rule step_queued_prefix)
  with 2 show ?case by (rule Cons.IH)
qed

lemma idle_runCallback: "idle_since c s \<Longrightarrow> idle_since c (runCallback' s)"
  by (cases s rule: runCallback_cases) (simp_all add: idle_since_def busy_def)

lemma idle_queueCallback:
  assumes "idle_since c s"
  shows "idle_since c (queueCallback' callback done s)"
proof -
  from assms
  have "idle_since c (s\<lparr>callbacks' := callbacks' s @ [(callback, done)],
                        trace := trace s @ [Queued callback done]\<rparr>)"
    by (simp add: idle_since_def busy_def)
  then show ?thesis unfolding queueCallback'_def by (rule idle_runCallback)
qed

lemma idle_onUpdateend:
  assumes "idle_since c s"
  shows "idle_since c (onUpdateend ev s)"
proof (cases "pendingCallback' s")
  case None
  from assms have "idle_since c (s\<lparr>pendingCallback' := None, trace := trace s @ [Handler ev]\<rparr>)"
    by (simp add: idle_since_def busy_def)
  then have "idle_since c (runCallback' (s\<lparr>pendingCallback' := None, trace := trace s @ [Handler ev]\<rparr>))"
    by (rule idle_runCallback)
  with None show ?thesis by (simp add: onUpdateend_def)
next
  case (Some f)
  from assms
  have "idle_since c (s\<lparr>pendingCallback' := None, trace := trace s @ [Handler ev, Called f []]\<rparr>)"
    by (simp add: idle_since_def busy_def)
  then have "idle_since c (runCallback'
      (s\<lparr>pendingCallback' := None, trace := trace s @ [Handler ev, Called f []]\<rparr>))"
    by (rule idle_runCallback)
  with Some show ?thesis by (simp add: onUpdateend_def)
qed

lemma idle_fire_updateend:
  assumes "idle_since c s"
  shows "idle_since c (fire_updateend ev s)"
proof -
  have "idle_since c ((onUpdateend ev ^^ n) s)" for n
    by (induction n) (simp_all add: assms idle_onUpdateend)
  with assms show ?thesis
    by (simp add: fire_updateend_def split: option.split)
qed

lemma idle_start:
  assumes "idle_since c s" and "start' s = Inr s'"
  shows "idle_since c s'"
proof -
  from assms(2) obtain sb where sb: "sourceBuffer' s = Some sb"
    by (cases "sourceBuffer' s") (simp_all add: start'_def)
  let ?s2 = "s\<lparr>started' := True, onUpdateendCallback' := Some (closures s),
               closures := Suc (closures s),
               sourceBuffer' := Some (sb\<lparr>sb_listeners := sb_listeners sb @ [closures s]\<rparr>)\<rparr>"
  from assms(1) sb have "idle_since c ?s2" by (simp add: idle_since_def busy_def)
  then have "idle_since c (runCallback' ?s2)" by (rule idle_runCallback)
  with assms(2) sb show ?thesis by (simp add: start'_def Let_def)
qed

lemma idle_call_listeners:
  assumes "idle_since c s" and "call_listeners n s = Inr s'"
  shows "idle_since c s'"
  using assms
proof (induction n arbitrary: s)
  case 0
  then show ?case by simp
next
  case (Suc n)
  from Suc.prems(2) obtain s1 where 1: "start' s = Inr s1" and 2: "call_listeners n s1 = Inr s'"
    by (auto split: sum.splits)
  from Suc.prems(1) 1 have "idle_since c s1" by (rule idle_start)
  then show ?case using 2 by (rule Suc.IH)
qed

lemma idle_createSourceBuffer:
  assumes "createSourceBuffer' mimeType sourceBufferEmitter s = Inr s'"
  shows "idle_since (dispatched (trace s)) s'"
proof -
  let ?c = "dispatched (trace s)"
  let ?s1 = "s\<lparr>sourceBuffer' := Some (new_sourceBuffer mimeType),
               mediaSource := (mediaSource s)\<lparr>sourceBuffers := Suc (sourceBuffers (mediaSource s))\<rparr>\<rparr>"
  have 1: "idle_since ?c ?s1" by (simp add: idle_since_def)
  have 2: "idle_since ?c (?s1\<lparr>trace := trace s @ [Triggered]\<rparr>)" by (simp add: idle_since_def)
  from assms show ?thesis
  proof (cases rule: createSourceBuffer_cases)
    case plain
    from 1 plain(2) show ?thesis by (rule idle_start)
  next
    case (wait s2)
    from 2 wait(2) have "idle_since ?c s2" by (rule idle_call_listeners)
    with wait(4) show ?thesis by (simp add: idle_since_def busy_def)
  next
    case (paired s2)
    from 2 paired(2) have "idle_since ?c s2" by (rule idle_call_listeners)
    then show ?thesis using paired(4) by (rule idle_start)
  qed
qed

lemma step_idle:
  assumes "step e s = Inr s'"
  shows "idle_since (dispatched (trace s)) s'"
proof -
  let ?c = "dispatched (trace s)"
  have 0: "idle_since ?c s" by (simp add: idle_since_def)
  show ?thesis
  proof (cases e)
    case (CallAbort d)
    with assms 0 show ?thesis by (auto simp: abort_def idle_queueCallback)
  next
    case (CallAppendBuffer b d)
    have "idle_since ?c (s\<lparr>processedAppend' := True\<rparr>)" by (simp add: idle_since_def)
    then have "idle_since ?c (queueCallback' (AppendAction b) d (s\<lparr>processedAppend' := True\<rparr>))"
      by (rule idle_queueCallback)
    with CallAppendBuffer assms show ?thesis by (auto simp: appendBuffer_def)
  next
    case (CallRemove a b d)
    with assms 0 show ?thesis by (auto simp: remove_def Let_def idle_queueCallback)
  next
    case (CallTimestampOffset offset)
    show ?thesis
    proof (cases offset)
      case None
      with CallTimestampOffset assms 0 show ?thesis by (auto simp: timestampOffset_def)
    next
      case (Some v)
      from 0 have "idle_since ?c (queueCallback' (OffsetAction v) None s)"
        by (rule idle_queueCallback)
      then have "idle_since ?c ((queueCallback' (OffsetAction v) None s)\<lparr>timestampOffset' := v\<rparr>)"
        by (simp add: idle_since_def busy_def)
      with Some CallTimestampOffset assms show ?thesis
        by (auto simp: timestampOffset_def Let_def)
    qed
  next
    case CallDispose
    with assms show ?thesis
      by (auto simp: dispose_def Let_def idle_since_def split: option.splits if_splits)
  next
    case Sourceopen
    show ?thesis
    proof (cases "sourceopen_listener s")
      case None
      with Sourceopen assms show ?thesis
        by (auto simp: fire_sourceopen_def idle_since_def)
    next
      case (Some l)
      let ?s1 = "s\<lparr>mediaSource := (mediaSource s)\<lparr>readyState := ''open''\<rparr>\<rparr>"
      from Some Sourceopen assms have "createSourceBuffer' (fst l) (snd l) ?s1 = Inr s'"
        by (simp add: fire_sourceopen_def split: prod.splits)
      then have "idle_since (dispatched (trace ?s1)) s'" by (rule idle_createSourceBuffer)
      then show ?thesis by simp
    qed
  next
    case Sourcebufferadded
    let ?s1 = "s\<lparr>mediaSource := (mediaSource s)\<lparr>sourceBuffers := Suc (sourceBuffers (mediaSource s))\<rparr>\<rparr>"
    have "idle_since ?c ?s1" by (simp add: idle_since_def)
    moreover from Sourcebufferadded assms
    have "call_listeners (sourcebufferadded_listeners s) ?s1 = Inr s'"
      by (simp add: fire_sourcebufferadded_def Let_def)
    ultimately show ?thesis by (rule idle_call_listeners)
  next
    case (Updateend ev)
    with assms 0 show ?thesis by (auto simp: idle_fire_updateend)
  next
    case (SetUpdating b)
    with assms show ?thesis
      by (auto simp: set_updating_def idle_since_def split: option.splits)
  next
    case (SetReadyState r)
    with assms show ?thesis by (auto simp: idle_since_def)
  qed
qed

text \<open>
  C2, as the code has it. \<open>runCallback'\<close> dispatches only when the buffer is not
  updating and no completion callback is pending, and nothing else dispatches: in every
  state an updater can be in, an event with which an action is dispatched leaves the
  buffer not updating, as it was when the action was dispatched. So the trace has no
  action dispatched while an action with a completion callback was in flight: after such
  an action is dispatched, none is dispatched before an \<open>updateend\<close> handler has run.
  An action is in flight in this sense exactly when a completion callback is pending.
\<close>

theorem dispatch_only_when_idle:
  assumes "reachable s"
  shows "(dispatched (trace (runCallback' s)) \<noteq> dispatched (trace s) \<longrightarrow>
            \<not> busy s \<and> pendingCallback' s = None) \<and>
         (\<forall>e s'. step e s = Inr s' \<longrightarrow> dispatched (trace s') \<noteq> dispatched (trace s) \<longrightarrow>
            \<not> busy s') \<and>
         foldl overlap_callback (Some False) (trace s) = Some (pendingCallback' s \<noteq> None)"
proof (intro conjI allI impI)
  assume "dispatched (trace (runCallback' s)) \<noteq> dispatched (trace s)"
  then have "\<not> updating s"
    by (auto simp: runCallback'_def)
  then show "\<not> busy s" and "pendingCallback' s = None"
    by (auto simp: updating_def busy_def split: option.splits)
next
  fix e s'
  assume "step e s = Inr s'" and "dispatched (trace s') \<noteq> dispatched (trace s)"
  then show "\<not> busy s'"
    using step_idle [of e s s'] by (simp add: idle_since_def)
next
  from assms
  show "foldl overlap_callback (Some False) (trace s) = Some (pendingCallback' s \<noteq> None)"
  proof (rule preserved_reachable)
    show "preserved (\<lambda>s. foldl overlap_callback (Some False) (trace s) =
        Some (pendingCallback' s \<noteq> None))"
    proof (rule preservedI)
      fix t :: sourceUpdater
      assume "foldl overlap_callback (Some False) (trace t) = Some (pendingCallback' t \<noteq> None)"
      then show "foldl overlap_callback (Some False) (trace (runCallback' t)) =
        Some (pendingCallback' (runCallback' t) \<noteq> None)"
        by (cases t rule: runCallback_cases) simp_all
    qed simp_all
  qed simp_all
qed

text \<open>
  C2, as the claim has it, fails: \<open>timestampOffset(5)\<close> and then
  \<open>appendBuffer\<close> on a new updater whose buffer is not updating. Both actions are
  dispatched at once, with no \<open>updateend\<close> between them: the offset action has no
  completion callback, so nothing is pending after it, and writing the offset of the
  buffer does not make it update.
\<close>

theorem dispatch_only_when_idle_counterexample:
  "new_session \<lparr>readyState = ''open'', sourceBuffers = 0\<rparr> False
     [CallTimestampOffset (Some 5), CallAppendBuffer [1] (Some (Done 1))] =
   Inr (projr (new_session \<lparr>readyState = ''open'', sourceBuffers = 0\<rparr> False
     [CallTimestampOffset (Some 5), CallAppendBuffer [1] (Some (Done 1))])) \<and>
   trace (projr (new_session \<lparr>readyState = ''open'', sourceBuffers = 0\<rparr> False
     [CallTimestampOffset (Some 5), CallAppendBuffer [1] (Some (Done 1))])) =
   [Queued (OffsetAction 5) None, Dispatched (OffsetAction 5) None,
    Queued (AppendAction [1]) (Some (Done 1)), Dispatched (AppendAction [1]) (Some (Done 1))] \<and>
   foldl overlap_any (Some False)
     (trace (projr (new_session \<lparr>readyState = ''open'', sourceBuffers = 0\<rparr> False
       [CallTimestampOffset (Some 5), CallAppendBuffer [1] (Some (Done 1))]))) = None"
  by (simp add: eval_defs)

text \<open>
  On an updater whose buffer is updating, with an append queued behind it: the event
  that ends the updating dispatches nothing, and the \<open>updateend\<close> after it
  dispatches the append, with the buffer not updating.
\<close>

theorem dispatch_only_when_idle_witness:
  "dispatched (trace (projr (new_session \<lparr>readyState = ''open'', sourceBuffers = 0\<rparr> False
      [SetUpdating True, CallAppendBuffer [1] (Some (Done 1))]))) = [] \<and>
   dispatched (trace (projr (new_session \<lparr>readyState = ''open'', sourceBuffers = 0\<rparr> False
      [SetUpdating True, CallAppendBuffer [1] (Some (Done 1)), SetUpdating False,
       Updateend Completed]))) = [(AppendAction [1], Some (Done 1))] \<and>
   \<not> busy (projr (new_session \<lparr>readyState = ''open'', sourceBuffers = 0\<rparr> False
      [SetUpdating True, CallAppendBuffer [1] (Some (Done 1)), SetUpdating False,
       Updateend Completed])) \<and>
   foldl overlap_callback (Some False)
     [Queued (AppendAction [1]) (Some (Done 1)), Handler Completed,
      Dispatched (AppendAction [1]) (Some (Done 1))] = Some True"
proof -
  let ?ms = "\<lparr>readyState = ''open'', sourceBuffers = 0\<rparr>"
  let ?es = "[SetUpdating True, CallAppendBuffer [1] (Some (Done 1)), SetUpdating False]"
  let ?new = "projr (new_session ?ms False [])"
  let ?s = "projr (new_session ?ms False ?es)"
  let ?t = "projr (new_session ?ms False (?es @ [Updateend Completed]))"
  have "SourceUpdater ?ms ''video/mp4'' ''main'' False = Inr ?new"
    by (simp add: eval_defs)
  then have "reachable ?new" by (rule reachable_new)
  moreover have "run ?es ?new = Inr ?s" by (simp add: eval_defs)
  ultimately have r: "reachable ?s" by (rule reachable_run)
  have u: "step (Updateend Completed) ?s = Inr ?t" by (simp add: eval_defs)
  with r have r': "reachable ?t" by (rule reachable_step)
  have d: "dispatched (trace ?s) = []"
    and d': "dispatched (trace ?t) = [(AppendAction [1], Some (Done 1))]"
    and tr: "trace ?t = [Queued (AppendAction [1]) (Some (Done 1)), Handler Completed,
      Dispatched (AppendAction [1]) (Some (Done 1))]"
    and p: "pendingCallback' ?t = Some (Done 1)"
    and d0: "dispatched (trace (projr (new_session ?ms False
      [SetUpdating True, CallAppendBuffer [1] (Some (Done 1))]))) = []"
    by (simp_all add: eval_defs)
  from dispatch_only_when_idle [OF r]
  have "\<forall>e s'. step e ?s = Inr s' \<longrightarrow> dispatched (trace s') \<noteq> dispatched (trace ?s) \<longrightarrow>
          \<not> busy s'"
    by (rule conjunct1 [OF conjunct2])
  then have "step (Updateend Completed) ?s = Inr ?t \<longrightarrow>
      dispatched (trace ?t) \<noteq> dispatched (trace ?s) \<longrightarrow> \<not> busy ?t"
    by blast
  with u d d' have 1: "\<not> busy ?t" by simp
  from dispatch_only_when_idle [OF r']
  have "foldl overlap_callback (Some False) (trace ?t) = Some (pendingCallback' ?t \<noteq> None)"
    by (rule conjunct2 [OF conjunct2])
  with tr p
  have 2: "foldl overlap_callback (Some False)
     [Queued (AppendAction [1]) (Some (Done 1)), Handler Completed,
      Dispatched (AppendAction [1]) (Some (Done 1))] = Some True"
    by simp
  from 1 2 d0 d' show ?thesis by simp
qed

text \<open>
  C4. Take an updater after any events since its construction. If none of them was a
  call of \<open>appendBuffer\<close>, then \<open>remove\<close> and \<open>abort\<close> leave the whole
  state as it is: nothing is queued, nothing is dispatched and no callback is kept. If
  one of them was, then \<open>remove\<close> and \<open>abort\<close> put their action with their
  completion callback (\<open>noop\<close> for a \<open>remove\<close> without one) at the end of the
  queue: after the call, the pairs dispatched so far followed by the queue are what
  they were before, followed by the new pair. A call of \<open>appendBuffer\<close> sets
  \<open>processedAppend'\<close>.
\<close>

theorem remove_abort_gated_by_append:
  assumes "SourceUpdater ms mimeType type sourceBufferEmitter = Inr s0"
    and "run es s0 = Inr s"
  shows "((\<forall>e\<in>set es. \<not> is_append e) \<longrightarrow>
            remove start end done s = s \<and> abort done s = s) \<and>
         ((\<exists>e\<in>set es. is_append e) \<longrightarrow>
            dispatched (trace (remove start end done s)) @ callbacks' (remove start end done s) =
              dispatched (trace s) @ callbacks' s @
                [(RemoveAction start end, Some (case done of None \<Rightarrow> Noop | Some f \<Rightarrow> f))] \<and>
            dispatched (trace (abort done s)) @ callbacks' (abort done s) =
              dispatched (trace s) @ callbacks' s @ [(AbortAction, done)] \<and>
            queued (trace (remove start end done s)) =
              queued (trace s) @
                [(RemoveAction start end, Some (case done of None \<Rightarrow> Noop | Some f \<Rightarrow> f))] \<and>
            queued (trace (abort done s)) = queued (trace s) @ [(AbortAction, done)]) \<and>
         processedAppend' (appendBuffer bytes done s)"
proof -
  from assms(1) have "\<not> processedAppend' s0" by (rule new_processedAppend)
  with assms(2) have "processedAppend' s = (\<exists>e\<in>set es. is_append e)"
    by (simp add: run_processedAppend)
  moreover
  have "dispatched (trace (queueCallback' callback d s)) @ callbacks' (queueCallback' callback d s) =
        dispatched (trace s) @ callbacks' s @ [(callback, d)]" for callback d
    unfolding queueCallback'_def
    by (cases "s\<lparr>callbacks' := callbacks' s @ [(callback, d)],
                   trace := trace s @ [Queued callback d]\<rparr>" rule: runCallback_cases)
      simp_all
  ultimately show ?thesis
    by (simp add: remove_def abort_def appendBuffer_def Let_def queued_queueCallback
        queueCallback_processedAppend)
qed

text \<open>
  On a new updater \<open>remove\<close> and \<open>abort\<close> change nothing. After an append that
  is in flight, a \<open>remove\<close> without callback and an \<open>abort\<close> each wait in the
  queue behind it.
\<close>

theorem remove_abort_gated_by_append_witness:
  "remove 0 10 (Some (Done 1))
     (projr (new_session \<lparr>readyState = ''open'', sourceBuffers = 0\<rparr> False [])) =
   projr (new_session \<lparr>readyState = ''open'', sourceBuffers = 0\<rparr> False []) \<and>
   abort (Some (Done 1))
     (projr (new_session \<lparr>readyState = ''open'', sourceBuffers = 0\<rparr> False [])) =
   projr (new_session \<lparr>readyState = ''open'', sourceBuffers = 0\<rparr> False []) \<and>
   dispatched (trace (remove 0 10 None
     (projr (new_session \<lparr>readyState = ''open'', sourceBuffers = 0\<rparr> False
        [CallAppendBuffer [1] (Some (Done 1))])))) @
   callbacks' (remove 0 10 None
     (projr (new_session \<lparr>readyState = ''open'', sourceBuffers = 0\<rparr> False
        [CallAppendBuffer [1] (Some (Done 1))]))) =
   [(AppendAction [1], Some (Done 1)), (RemoveAction 0 10, Some Noop)] \<and>
   dispatched (trace (abort (Some (Done 2))
     (projr (new_session \<lparr>readyState = ''open'', sourceBuffers = 0\<rparr> False
        [CallAppendBuffer [1] (Some (Done 1))])))) @
   callbacks' (abort (Some (Done 2))
     (projr (new_session \<lparr>readyState = ''open'', sourceBuffers = 0\<rparr> False
        [CallAppendBuffer [1] (Some (Done 1))]))) =
   [(AppendAction [1], Some (Done 1)), (AbortAction, Some (Done 2))]"
proof -
  let ?ms = "\<lparr>readyState = ''open'', sourceBuffers = 0\<rparr>"
  let ?new = "projr (new_session ?ms False [])"
  let ?es = "[CallAppendBuffer [1] (Some (Done 1))]"
  let ?t = "projr (new_session ?ms False ?es)"
  have 1: "SourceUpdater ?ms ''video/mp4'' ''main'' False = Inr ?new"
    by (simp add: eval_defs)
  have 2: "run [] ?new = Inr ?new" by simp
  have 3: "run ?es ?new = Inr ?t" by (simp add: eval_defs)
  have 4: "dispatched (trace ?t) = [(AppendAction [1], Some (Done 1))]"
    and 5: "callbacks' ?t = []"
    by (simp_all add: eval_defs)
  from remove_abort_gated_by_append [OF 1 2, of 0 10 "Some (Done 1)" "[]"]
  have a: "remove 0 10 (Some (Done 1)) ?new = ?new \<and> abort (Some (Done 1)) ?new = ?new"
    by simp
  from remove_abort_gated_by_append [OF 1 3, of 0 10 None "[]"]
  have b: "dispatched (trace (remove 0 10 None ?t)) @ callbacks' (remove 0 10 None ?t) =
      dispatched (trace ?t) @ callbacks' ?t @ [(RemoveAction 0 10, Some Noop)]"
    by auto
  from remove_abort_gated_by_append [OF 1 3, of 0 10 "Some (Done 2)" "[]"]
  have c: "dispatched (trace (abort (Some (Done 2)) ?t)) @ callbacks' (abort (Some (Done 2)) ?t) =
      dispatched (trace ?t) @ callbacks' ?t @ [(AbortAction, Some (Done 2))]"
    by auto
  from a b c 4 5 show ?thesis by simp
qed

lemma runCallback_listeners:
  assumes "sourceBuffer' s = Some sb"
  shows "\<exists>sb'. sourceBuffer' (runCallback' s) = Some sb' \<and> sb_listeners sb' = sb_listeners sb"
  using assms by (cases s rule: runCallback_cases) auto

lemma start_listening:
  assumes "start' s = Inr s'"
  shows "\<exists>sb. sourceBuffer' s' = Some sb \<and> sb_listeners sb \<noteq> []"
proof -
  from assms obtain sb where sb: "sourceBuffer' s = Some sb"
    by (cases "sourceBuffer' s") (simp_all add: start'_def)
  let ?sb = "sb\<lparr>sb_listeners := sb_listeners sb @ [closures s]\<rparr>"
  let ?s2 = "s\<lparr>started' := True, onUpdateendCallback' := Some (closures s),
               closures := Suc (closures s), sourceBuffer' := Some ?sb\<rparr>"
  have "sourceBuffer' ?s2 = Some ?sb" by simp
  then obtain sb' where "sourceBuffer' (runCallback' ?s2) = Some sb'"
    and "sb_listeners sb' = sb_listeners ?sb"
    using runCallback_listeners by blast
  moreover from assms sb have "s' = runCallback' ?s2" by (simp add: start'_def Let_def)
  ultimately show ?thesis by simp
qed

lemma call_listeners_listening:
  assumes "call_listeners n s = Inr s'"
    and "\<exists>sb. sourceBuffer' s = Some sb \<and> sb_listeners sb \<noteq> []"
  shows "\<exists>sb. sourceBuffer' s' = Some sb \<and> sb_listeners sb \<noteq> []"
  using assms
proof (induction n arbitrary: s)
  case 0
  then show ?case by simp
next
  case (Suc n)
  from Suc.prems(1) obtain s1 where 1: "start' s = Inr s1" and 2: "call_listeners n s1 = Inr s'"
    by (auto split: sum.splits)
  from 1 have "\<exists>sb. sourceBuffer' s1 = Some sb \<and> sb_listeners sb \<noteq> []"
    by (rule start_listening)
  with 2 show ?case by (rule Suc.IH)
qed

lemma sourcebufferadded_listening:
  assumes "awaiting_pairing s" and "step Sourcebufferadded s = Inr s'"
  shows "\<exists>sb. sourceBuffer' s' = Some sb \<and> sb_listeners sb \<noteq> []"
proof -
  let ?s1 = "s\<lparr>mediaSource := (mediaSource s)\<lparr>sourceBuffers := Suc (sourceBuffers (mediaSource s))\<rparr>\<rparr>"
  from assms(1) obtain n where n: "sourcebufferadded_listeners s = Suc n"
    by (cases "sourcebufferadded_listeners s") (simp_all add: awaiting_pairing_def)
  with assms(2) obtain s2 where 1: "start' ?s1 = Inr s2" and 2: "call_listeners n s2 = Inr s'"
    by (auto simp: fire_sourcebufferadded_def Let_def split: sum.splits)
  from 1 have "\<exists>sb. sourceBuffer' s2 = Some sb \<and> sb_listeners sb \<noteq> []"
    by (rule start_listening)
  with 2 show ?thesis by (rule call_listeners_listening)
qed

lemma run_queued:
  assumes "run es s = Inr s'" and "\<forall>e\<in>set es. \<not> is_call e"
  shows "queued (trace s') = queued (trace s)"
  using assms
proof (induction es arbitrary: s)
  case Nil
  then show ?case by simp
next
  case (Cons e es)
  from Cons.prems(1) obtain s1 where 1: "step e s = Inr s1" and 2: "run es s1 = Inr s'"
    by (auto split: sum.splits)
  from 1 have "queued (trace s1) = queued (trace s)"
    by (rule step_queued) (use Cons.prems(2) in simp)
  moreover from 2 have "queued (trace s') = queued (trace s1)"
    by (rule Cons.IH) (use Cons.prems(2) in simp)
  ultimately show ?case by simp
qed

lemma completions_no_call: "\<forall>e\<in>set (completions evs). \<not> is_call e"
  by (induction evs) simp_all

lemma constructor_awaits:
  assumes "sourceBuffers ms = 0"
    and "SourceUpdater ms mimeType type True = Inr s0"
  shows "(readyState ms \<noteq> ''closed'' \<longrightarrow> awaiting_pairing s0) \<and>
         (readyState ms = ''closed'' \<longrightarrow>
            (\<exists>s1. step Sourceopen s0 = Inr s1 \<and> awaiting_pairing s1))"
proof (intro conjI impI)
  assume "readyState ms \<noteq> ''closed''"
  with assms show "awaiting_pairing s0"
    by (auto simp: SourceUpdater_def createSourceBuffer'_def awaiting_pairing_def Let_def)
next
  assume "readyState ms = ''closed''"
  with assms show "\<exists>s1. step Sourceopen s0 = Inr s1 \<and> awaiting_pairing s1"
    by (auto simp: SourceUpdater_def fire_sourceopen_def createSourceBuffer'_def
        awaiting_pairing_def Let_def)
qed

text \<open>
  C5. In every state an updater can be in: while it has not started, no action has been
  dispatched and the queue holds every pair that was queued, in order; and the actions
  dispatched are always the first of the pairs queued, in order. When
  \<open>createSourceBuffer'\<close> runs with an emitter for the first time and the media source
  had no buffer, it leaves the updater awaiting its pair; so does the constructor with an
  emitter on a media source with no buffer, at once or with \<open>sourceopen\<close>. An
  updater awaiting its pair stays so through every call and event but
  \<open>sourcebufferadded\<close> and \<open>sourceopen\<close>, with nothing dispatched and everything
  queued held in the queue. \<open>sourcebufferadded\<close> then starts it, and what is dispatched
  from then on starts with the head of the held queue and follows its order; when
  completion notifications then arrive, more of them than the queue held, the actions
  dispatched are the held queue, whole and in order.
\<close>

theorem no_dispatch_until_started:
  assumes "reachable s"
  shows "(\<not> started' s \<longrightarrow> dispatched (trace s) = [] \<and> callbacks' s = queued (trace s)) \<and>
         prefix (dispatched (trace s)) (queued (trace s)) \<and>
         (\<not> started' s \<and> sourcebufferadded_listeners s = 0 \<and>
          sourceBuffers (mediaSource s) = 0 \<longrightarrow>
            (\<exists>s'. createSourceBuffer' mimeType True s = Inr s' \<and> awaiting_pairing s' \<and>
                  callbacks' s' = callbacks' s \<and> dispatched (trace s') = [])) \<and>
         (awaiting_pairing s \<and> Sourcebufferadded \<notin> set es \<and> Sourceopen \<notin> set es \<longrightarrow>
            (\<exists>s'. run es s = Inr s' \<and> awaiting_pairing s' \<and> dispatched (trace s') = [] \<and>
                  callbacks' s' = queued (trace s'))) \<and>
         (awaiting_pairing s \<longrightarrow>
            (\<exists>s'. step Sourcebufferadded s = Inr s' \<and> started' s' \<and>
                  prefix (dispatched (trace s')) (callbacks' s) \<and>
                  (callbacks' s \<noteq> [] \<and> \<not> busy s \<longrightarrow> dispatched (trace s') \<noteq> []) \<and>
                  (\<forall>es' t. run es' s' = Inr t \<longrightarrow>
                     prefix (dispatched (trace t)) (queued (trace t)) \<and>
                     prefix (callbacks' s) (queued (trace t))))) \<and>
         (awaiting_pairing s \<and> length (callbacks' s) < length evs \<longrightarrow>
            (\<exists>s' t. step Sourcebufferadded s = Inr s' \<and> run (completions evs) s' = Inr t \<and>
                  dispatched (trace t) = callbacks' s \<and> callbacks' t = [])) \<and>
         (\<forall>ms type s0. sourceBuffers ms = 0 \<longrightarrow>
            SourceUpdater ms mimeType type True = Inr s0 \<longrightarrow>
              (readyState ms \<noteq> ''closed'' \<longrightarrow> awaiting_pairing s0) \<and>
              (readyState ms = ''closed'' \<longrightarrow>
                 (\<exists>s1. step Sourceopen s0 = Inr s1 \<and> awaiting_pairing s1)))"
proof -
  have held: "dispatched (trace u) = [] \<and> callbacks' u = queued (trace u)"
    if "reachable u" and "\<not> started' u" for u
    using that dispatched_fifo [of u] not_started_no_dispatch [of u] by simp
  have fifo: "prefix (dispatched (trace u)) (queued (trace u))" if "reachable u" for u
    using dispatched_fifo [OF that] by (metis prefixI)
  have a: "\<not> started' s \<longrightarrow> dispatched (trace s) = [] \<and> callbacks' s = queued (trace s)"
    using held [OF assms] by simp
  have b: "prefix (dispatched (trace s)) (queued (trace s))"
    using assms by (rule fifo)
  have c: "\<exists>s'. createSourceBuffer' mimeType True s = Inr s' \<and> awaiting_pairing s' \<and>
                  callbacks' s' = callbacks' s \<and> dispatched (trace s') = []"
    if "\<not> started' s" and "sourcebufferadded_listeners s = 0"
      and "sourceBuffers (mediaSource s) = 0"
    using createSourceBuffer_awaiting [OF that, of mimeType] held [OF assms that(1)] by auto
  have d: "\<exists>s'. run es s = Inr s' \<and> awaiting_pairing s' \<and> dispatched (trace s') = [] \<and>
                  callbacks' s' = queued (trace s')"
    if "awaiting_pairing s" and "Sourcebufferadded \<notin> set es" and "Sourceopen \<notin> set es"
  proof -
    from that obtain s' where 1: "run es s = Inr s'" and 2: "awaiting_pairing s'"
      using run_awaiting by blast
    from assms 1 have "reachable s'" by (rule reachable_run)
    moreover from 2 have "\<not> started' s'" by (simp add: awaiting_pairing_def)
    ultimately have "dispatched (trace s') = [] \<and> callbacks' s' = queued (trace s')"
      by (rule held)
    with 1 2 show ?thesis by (intro exI [of _ s']) simp
  qed
  have e: "\<exists>s'. step Sourcebufferadded s = Inr s' \<and> started' s' \<and>
                  prefix (dispatched (trace s')) (callbacks' s) \<and>
                  (callbacks' s \<noteq> [] \<and> \<not> busy s \<longrightarrow> dispatched (trace s') \<noteq> []) \<and>
                  (\<forall>es' t. run es' s' = Inr t \<longrightarrow>
                     prefix (dispatched (trace t)) (queued (trace t)) \<and>
                     prefix (callbacks' s) (queued (trace t)))"
    if w: "awaiting_pairing s"
  proof -
    from w have ns: "\<not> started' s" by (simp add: awaiting_pairing_def)
    with assms have p: "pendingCallback' s = None" by (rule not_started_nothing_pending)
    from held [OF assms ns] have q: "callbacks' s = queued (trace s)" by simp
    from sourcebufferadded_starts [OF w] p obtain s' where
      1: "step Sourcebufferadded s = Inr s'" and 2: "started' s'"
      and 3: "callbacks' s \<noteq> [] \<and> \<not> busy s \<longrightarrow> dispatched (trace s') \<noteq> []"
      by auto
    from assms 1 have r: "reachable s'" by (rule reachable_step)
    from 1 have "queued (trace s') = queued (trace s)" by (rule step_queued) simp
    with q have qs: "queued (trace s') = callbacks' s" by simp
    with fifo [OF r] have 4: "prefix (dispatched (trace s')) (callbacks' s)" by simp
    have 5: "prefix (dispatched (trace t)) (queued (trace t)) \<and>
             prefix (callbacks' s) (queued (trace t))" if "run es' s' = Inr t" for es' t
    proof -
      from r that have "reachable t" by (rule reachable_run)
      then have "prefix (dispatched (trace t)) (queued (trace t))" by (rule fifo)
      moreover from that have "prefix (queued (trace s')) (queued (trace t))"
        by (rule run_queued_prefix) simp
      ultimately show ?thesis using qs by simp
    qed
    have "\<forall>es' t. run es' s' = Inr t \<longrightarrow>
             prefix (dispatched (trace t)) (queued (trace t)) \<and>
             prefix (callbacks' s) (queued (trace t))"
      using 5 by simp
    with 1 2 3 4 show ?thesis by (intro exI [of _ s']) simp
  qed
  from c have c': "\<not> started' s \<and> sourcebufferadded_listeners s = 0 \<and>
          sourceBuffers (mediaSource s) = 0 \<longrightarrow>
            (\<exists>s'. createSourceBuffer' mimeType True s = Inr s' \<and> awaiting_pairing s' \<and>
                  callbacks' s' = callbacks' s \<and> dispatched (trace s') = [])"
    by simp
  from d have d': "awaiting_pairing s \<and> Sourcebufferadded \<notin> set es \<and> Sourceopen \<notin> set es \<longrightarrow>
            (\<exists>s'. run es s = Inr s' \<and> awaiting_pairing s' \<and> dispatched (trace s') = [] \<and>
                  callbacks' s' = queued (trace s'))"
    by simp
  from e have e': "awaiting_pairing s \<longrightarrow>
            (\<exists>s'. step Sourcebufferadded s = Inr s' \<and> started' s' \<and>
                  prefix (dispatched (trace s')) (callbacks' s) \<and>
                  (callbacks' s \<noteq> [] \<and> \<not> busy s \<longrightarrow> dispatched (trace s') \<noteq> []) \<and>
                  (\<forall>es' t. run es' s' = Inr t \<longrightarrow>
                     prefix (dispatched (trace t)) (queued (trace t)) \<and>
                     prefix (callbacks' s) (queued (trace t))))"
    by simp
  have f: "\<exists>s' t. step Sourcebufferadded s = Inr s' \<and> run (completions evs) s' = Inr t \<and>
                  dispatched (trace t) = callbacks' s \<and> callbacks' t = []"
    if w: "awaiting_pairing s" and l: "length (callbacks' s) < length evs"
  proof -
    from w have ns: "\<not> started' s" by (simp add: awaiting_pairing_def)
    from held [OF assms ns] have q: "callbacks' s = queued (trace s)" by simp
    from sourcebufferadded_starts [OF w] obtain s' where
      1: "step Sourcebufferadded s = Inr s'" and 2: "started' s'"
      by auto
    from w 1 obtain sb where sb: "sourceBuffer' s' = Some sb" "sb_listeners sb \<noteq> []"
      using sourcebufferadded_listening by blast
    from assms 1 have r: "reachable s'" by (rule reachable_step)
    from 1 have "queued (trace s') = queued (trace s)" by (rule step_queued) simp
    with q have qs: "queued (trace s') = callbacks' s" by simp
    with dispatched_fifo [OF r] have "length (callbacks' s') \<le> length (callbacks' s)"
      by (metis le_add2 length_append)
    with l have o: "outstanding s' \<le> length evs" by (simp add: outstanding_def)
    from 2 sb obtain t where 3: "run (completions evs) s' = Inr t"
      and "outstanding t \<le> outstanding s' - length evs"
      using run_completions by blast
    with o have "outstanding t = 0" by simp
    then have 4: "callbacks' t = []" by (simp add: outstanding_def split: if_splits)
    from r 3 have "reachable t" by (rule reachable_run)
    then have "dispatched (trace t) @ callbacks' t = queued (trace t)" by (rule dispatched_fifo)
    moreover from 3 have "queued (trace t) = queued (trace s')"
      by (rule run_queued) (rule completions_no_call)
    ultimately have "dispatched (trace t) = callbacks' s" using 4 qs by simp
    with 1 3 4 show ?thesis by (intro exI [of _ s'] exI [of _ t]) simp
  qed
  then have f': "awaiting_pairing s \<and> length (callbacks' s) < length evs \<longrightarrow>
            (\<exists>s' t. step Sourcebufferadded s = Inr s' \<and> run (completions evs) s' = Inr t \<and>
                  dispatched (trace t) = callbacks' s \<and> callbacks' t = [])"
    by simp
  have g': "\<forall>ms type s0. sourceBuffers ms = 0 \<longrightarrow>
            SourceUpdater ms mimeType type True = Inr s0 \<longrightarrow>
              (readyState ms \<noteq> ''closed'' \<longrightarrow> awaiting_pairing s0) \<and>
              (readyState ms = ''closed'' \<longrightarrow>
                 (\<exists>s1. step Sourceopen s0 = Inr s1 \<and> awaiting_pairing s1))"
    using constructor_awaits by blast
  show ?thesis by (intro conjI a b c' d' e' f' g')
qed

theorem no_dispatch_until_started_witness:
  "awaiting_pairing (projr (new_session \<lparr>readyState = ''open'', sourceBuffers = 0\<rparr> True
      [CallAppendBuffer [1] (Some (Done 1)), CallAppendBuffer [2] (Some (Done 2))])) \<and>
   dispatched (trace (projr (new_session \<lparr>readyState = ''open'', sourceBuffers = 0\<rparr> True
      [CallAppendBuffer [1] (Some (Done 1)), CallAppendBuffer [2] (Some (Done 2)),
       CallRemove 0 1 None, Updateend Completed]))) = [] \<and>
   callbacks' (projr (new_session \<lparr>readyState = ''open'', sourceBuffers = 0\<rparr> True
      [CallAppendBuffer [1] (Some (Done 1)), CallAppendBuffer [2] (Some (Done 2)),
       CallRemove 0 1 None, Updateend Completed])) =
     [(AppendAction [1], Some (Done 1)), (AppendAction [2], Some (Done 2)),
      (RemoveAction 0 1, Some Noop)] \<and>
   started' (projr (new_session \<lparr>readyState = ''open'', sourceBuffers = 0\<rparr> True
      [CallAppendBuffer [1] (Some (Done 1)), CallAppendBuffer [2] (Some (Done 2)),
       Sourcebufferadded])) \<and>
   prefix
     (dispatched (trace (projr (new_session \<lparr>readyState = ''open'', sourceBuffers = 0\<rparr> True
        [CallAppendBuffer [1] (Some (Done 1)), CallAppendBuffer [2] (Some (Done 2)),
         Sourcebufferadded]))))
     [(AppendAction [1], Some (Done 1)), (AppendAction [2], Some (Done 2))] \<and>
   dispatched (trace (projr (new_session \<lparr>readyState = ''open'', sourceBuffers = 0\<rparr> True
      [CallAppendBuffer [1] (Some (Done 1)), CallAppendBuffer [2] (Some (Done 2)),
       Sourcebufferadded]))) \<noteq> [] \<and>
   dispatched (trace (projr (new_session \<lparr>readyState = ''open'', sourceBuffers = 0\<rparr> True
      [CallAppendBuffer [1] (Some (Done 1)), CallAppendBuffer [2] (Some (Done 2)),
       Sourcebufferadded, SetUpdating False, Updateend Completed, SetUpdating False,
       Updateend Completed, SetUpdating False, Updateend Completed]))) =
     [(AppendAction [1], Some (Done 1)), (AppendAction [2], Some (Done 2))] \<and>
   awaiting_pairing (projr (new_session \<lparr>readyState = ''open'', sourceBuffers = 0\<rparr> True [])) \<and>
   awaiting_pairing (projr (new_session \<lparr>readyState = ''closed'', sourceBuffers = 0\<rparr> True
      [Sourceopen]))"
proof -
  let ?ms = "\<lparr>readyState = ''open'', sourceBuffers = 0\<rparr>"
  let ?calls = "[CallAppendBuffer [1] (Some (Done 1)), CallAppendBuffer [2] (Some (Done 2))]"
  let ?es = "[CallRemove 0 1 None, Updateend Completed]"
  let ?new = "projr (new_session ?ms True [])"
  let ?s = "projr (new_session ?ms True ?calls)"
  let ?t = "projr (new_session ?ms True (?calls @ ?es))"
  let ?u = "projr (new_session ?ms True (?calls @ [Sourcebufferadded]))"
  have "SourceUpdater ?ms ''video/mp4'' ''main'' True = Inr ?new"
    by (simp add: eval_defs)
  then have "reachable ?new" by (rule reachable_new)
  moreover have "run ?calls ?new = Inr ?s" by (simp add: eval_defs)
  ultimately have r: "reachable ?s" by (rule reachable_run)
  have w: "awaiting_pairing ?s" by (simp add: eval_defs awaiting_pairing_def)
  have t: "run ?es ?s = Inr ?t" by (simp add: eval_defs)
  have u: "step Sourcebufferadded ?s = Inr ?u" by (simp add: eval_defs)
  have q: "callbacks' ?s = [(AppendAction [1], Some (Done 1)), (AppendAction [2], Some (Done 2))]"
    and qt: "queued (trace ?t) = [(AppendAction [1], Some (Done 1)), (AppendAction [2], Some (Done 2)),
      (RemoveAction 0 1, Some Noop)]"
    and b: "\<not> busy ?s"
    by (simp_all add: eval_defs busy_def)
  have n: "Sourcebufferadded \<notin> set ?es \<and> Sourceopen \<notin> set ?es" by simp
  let ?evs = "[Completed, Completed, Completed]"
  let ?v = "projr (new_session ?ms True (?calls @ Sourcebufferadded # completions ?evs))"
  let ?closed = "\<lparr>readyState = ''closed'', sourceBuffers = 0\<rparr>"
  let ?c0 = "projr (new_session ?closed True [])"
  let ?c1 = "projr (new_session ?closed True [Sourceopen])"
  have v: "run (completions ?evs) ?u = Inr ?v" by (simp add: eval_defs)
  have l: "length (callbacks' ?s) < length ?evs" by (simp add: eval_defs)
  have n0: "SourceUpdater ?ms ''video/mp4'' ''main'' True = Inr ?new"
    and c0: "SourceUpdater ?closed ''video/mp4'' ''main'' True = Inr ?c0"
    and c1: "step Sourceopen ?c0 = Inr ?c1"
    by (simp_all add: eval_defs)
  note inst = no_dispatch_until_started [OF r, of "''video/mp4''" ?es ?evs]
  from inst w n have "\<exists>s'. run ?es ?s = Inr s' \<and> awaiting_pairing s' \<and>
      dispatched (trace s') = [] \<and> callbacks' s' = queued (trace s')"
    by blast
  with t have 1: "dispatched (trace ?t) = [] \<and> callbacks' ?t = queued (trace ?t)" by simp
  from inst w have "\<exists>s'. step Sourcebufferadded ?s = Inr s' \<and> started' s' \<and>
      prefix (dispatched (trace s')) (callbacks' ?s) \<and>
      (callbacks' ?s \<noteq> [] \<and> \<not> busy ?s \<longrightarrow> dispatched (trace s') \<noteq> [])"
    by blast
  with u have 2: "started' ?u \<and> prefix (dispatched (trace ?u)) (callbacks' ?s) \<and>
      (callbacks' ?s \<noteq> [] \<and> \<not> busy ?s \<longrightarrow> dispatched (trace ?u) \<noteq> [])"
    by simp
  from inst w l have "\<exists>s' t. step Sourcebufferadded ?s = Inr s' \<and>
      run (completions ?evs) s' = Inr t \<and> dispatched (trace t) = callbacks' ?s \<and>
      callbacks' t = []"
    by blast
  with u v have 3: "dispatched (trace ?v) = callbacks' ?s" by simp
  have dv: "dispatched (trace ?v) =
      [(AppendAction [1], Some (Done 1)), (AppendAction [2], Some (Done 2))]"
    by (simp add: eval_defs)
  from inst have g: "\<forall>ms type s0. sourceBuffers ms = 0 \<longrightarrow>
            SourceUpdater ms ''video/mp4'' type True = Inr s0 \<longrightarrow>
              (readyState ms \<noteq> ''closed'' \<longrightarrow> awaiting_pairing s0) \<and>
              (readyState ms = ''closed'' \<longrightarrow>
                 (\<exists>s1. step Sourceopen s0 = Inr s1 \<and> awaiting_pairing s1))"
    by blast
  have "sourceBuffers ?ms = 0" and z: "sourceBuffers ?closed = 0" by simp_all
  with g n0 have "readyState ?ms \<noteq> ''closed'' \<longrightarrow> awaiting_pairing ?new" by blast
  then have 4: "awaiting_pairing ?new" by simp
  from g z c0 have "readyState ?closed = ''closed'' \<longrightarrow>
      (\<exists>s1. step Sourceopen ?c0 = Inr s1 \<and> awaiting_pairing s1)"
    by blast
  then have "\<exists>s1. step Sourceopen ?c0 = Inr s1 \<and> awaiting_pairing s1" by simp
  with c1 have 5: "awaiting_pairing ?c1" by simp
  from w 1 2 3 4 5 q qt b dv show ?thesis by simp
qed

end
